theory Spec2Isabelle
  imports Complex_Main "HOL-Library.Log_Nat"
begin

section \<open>Numbers and strings of the source language\<close>

text \<open>
  The source is TypeScript (\<^verbatim>\<open>src/app/page.tsx\<close>; the earlier revision
  \<^verbatim>\<open>src/unnamed/part_000\<close> holds the same dimension logic). Its \<^verbatim>\<open>number\<close>
  values are IEEE 754 binary64 values. A finite one is a rational, and the type
  \<open>number\<close> is \<open>rat\<close>; the result of \<^verbatim>\<open>+\<close>, \<^verbatim>\<open>-\<close>, \<^verbatim>\<open>*\<close>, \<^verbatim>\<open>/\<close> is the exact result
  rounded to the nearest binary64 value, a tie going to the even significand (\<open>fl\<close>),
  and a decimal literal is the nearest binary64 value of its decimal. Comparisons are
  exact. Values below \<open>2 powi (- 1022)\<close> are rounded on the subnormal grid of
  \<open>2 powi (- 1074)\<close>. Infinities and NaN are not represented: no operation of the model
  has a result beyond the largest finite value when its operands are image sizes and
  envelope bounds, and every division the theorems rely on has a non-zero divisor.
\<close>

type_synonym number = rat

text \<open>The exponent \<open>k\<close> with \<open>2 powi k \<le> x < 2 powi (k + 1)\<close>, for positive \<open>x\<close>.\<close>

definition ilog2 :: "rat \<Rightarrow> int" where
  "ilog2 x = (if 1 \<le> x then bitlen \<lfloor>x\<rfloor> - 1 else - bitlen (- \<lfloor>- (1 / x)\<rfloor> - 1))"

text \<open>Rounding to the nearest integer, a tie going to the even one.\<close>

definition roundEven :: "rat \<Rightarrow> int" where
  "roundEven y =
     (let f = \<lfloor>y\<rfloor>; r = y - of_int f
      in if r < 1 / 2 then f else if 1 / 2 < r then f + 1 else if even f then f else f + 1)"

text \<open>
  The exponent of the last place of a 53-bit significand for \<open>x\<close>, never below that of
  the subnormal numbers.
\<close>

definition ulpExp :: "rat \<Rightarrow> int" where
  "ulpExp x = max (- 1074) (ilog2 x - 52)"

definition fl :: "rat \<Rightarrow> number" where
  "fl x =
     (if x = 0 then 0
      else if 0 < x then of_int (roundEven (x / 2 powi ulpExp x)) * 2 powi ulpExp x
      else - (of_int (roundEven (- x / 2 powi ulpExp (- x))) * 2 powi ulpExp (- x)))"


text \<open>\<^verbatim>\<open>a / b\<close>, \<^verbatim>\<open>a * b\<close> and \<^verbatim>\<open>a - b\<close> on numbers.\<close>

definition fdiv :: "number \<Rightarrow> number \<Rightarrow> number" where
  "fdiv a b = fl (a / b)"

definition fmul :: "number \<Rightarrow> number \<Rightarrow> number" where
  "fmul a b = fl (a * b)"

definition fsub :: "number \<Rightarrow> number \<Rightarrow> number" where
  "fsub a b = fl (a - b)"

text \<open>
  \<^verbatim>\<open>Math.round(x)\<close>: the integer nearest to \<open>x\<close>, a tie going up. The language defines it
  on the exact value of \<open>x\<close>; the result is an integer and is not rounded again.
\<close>

definition Math_round :: "number \<Rightarrow> number" where
  "Math_round x = of_int \<lfloor>x + 1 / 2\<rfloor>"

text \<open>\<^verbatim>\<open>s.startsWith(p)\<close>.\<close>

definition startsWith :: "string \<Rightarrow> string \<Rightarrow> bool" where
  "startsWith s p = (take (length p) s = p)"

text \<open>\<^verbatim>\<open>s.split(c)\<close> for a separator of one character: never the empty list.\<close>

fun str_split :: "char \<Rightarrow> string \<Rightarrow> string list" where
  "str_split c [] = [[]]"
| "str_split c (x # xs) =
     (if x = c then [] # str_split c xs
      else (case str_split c xs of
              [] \<Rightarrow> [[x]]
            | y # ys \<Rightarrow> (x # y) # ys))"

text \<open>\<^verbatim>\<open>parts.slice(0, -1)\<close>: all elements but the last.\<close>

definition slice_0_minus1 :: "'a list \<Rightarrow> 'a list" where
  "slice_0_minus1 parts = butlast parts"

text \<open>\<^verbatim>\<open>parts.join(sep)\<close>.\<close>

fun str_join :: "string \<Rightarrow> string list \<Rightarrow> string" where
  "str_join sep [] = []"
| "str_join sep [x] = x"
| "str_join sep (x # y # ys) = x @ sep @ str_join sep (y # ys)"

section \<open>Data\<close>

text \<open>The \<^verbatim>\<open>File\<close> fields the code reads, and the decoded image's intrinsic size.\<close>

record File =
  file_name :: string
  file_type :: string

record img =
  img_width :: nat
  img_height :: nat

text \<open>\<^verbatim>\<open>type ResizedImage = { dataUrl: string; name: string }\<close>.\<close>

record ResizedImage =
  dataUrl :: string
  name :: string

datatype resizeMode = dimensions | fileSize

text \<open>
  The browser is a collaborator. \<open>encodeBase64 b w h t q\<close> is the base64 text of the
  file that serialises, in the format \<open>t\<close> at quality \<open>q\<close>, the canvas of width \<open>w\<close> and
  height \<open>h\<close> with the decoded image drawn onto it; \<open>blobSize b url\<close> is
  \<^verbatim>\<open>dataURLtoBlob(url).size\<close>, the number of bytes of the decoded payload.
\<close>

record browser =
  encodeBase64 :: "number \<Rightarrow> number \<Rightarrow> string \<Rightarrow> number option \<Rightarrow> string"
  blobSize :: "string \<Rightarrow> nat"

text \<open>
  \<^verbatim>\<open>canvas.toDataURL(t, q)\<close> once the canvas has been given width \<open>w\<close> and height \<open>h\<close>.
  By the standard of the canvas element the result is the string \<^verbatim>\<open>data:,\<close> when the
  canvas has no pixels (its width or its height is zero), and otherwise a data URL of the
  serialised file. The
  two formats the source asks for, \<^verbatim>\<open>image/png\<close> and \<^verbatim>\<open>image/jpeg\<close>, are taken to be
  supported, so the URL names the format asked for; a browser's limit on the size of a
  canvas is outside the model.
\<close>

definition toDataURL :: "browser \<Rightarrow> number \<Rightarrow> number \<Rightarrow> string \<Rightarrow> number option \<Rightarrow> string" where
  "toDataURL b w h t q =
     (if w = 0 \<or> h = 0 then ''data:,''
      else ''data:'' @ t @ '';base64,'' @ encodeBase64 b w h t q)"

text \<open>One entry of the log of \<^verbatim>\<open>toDataURL\<close> calls.\<close>

record encodeCall =
  call_width :: number
  call_height :: number
  call_type :: string
  call_quality :: "number option"

text \<open>
  The calls of \<^verbatim>\<open>setMessage\<close> inside the per-file work, in order. The text of a
  message is kept as its kind and the values interpolated into it.
\<close>

datatype message =
    SkippingNonImage string
  | AlreadySmaller string number number
  | CouldNotResize string number

section \<open>Validation of the envelopes\<close>

definition validDimensions :: "number \<Rightarrow> number \<Rightarrow> bool" where
  "validDimensions minSize maxSize = (\<not> (minSize \<le> 0 \<or> maxSize \<le> 0 \<or> minSize > maxSize))"

definition validFileSizes :: "number \<Rightarrow> number \<Rightarrow> bool" where
  "validFileSizes minFileSize maxFileSize =
     (\<not> (minFileSize \<le> 0 \<or> maxFileSize \<le> 0 \<or> minFileSize > maxFileSize))"

section \<open>Dimension-based resizing\<close>

text \<open>\<^verbatim>\<open>// Resize based on max dimension\<close>\<close>

definition maxPass :: "number \<Rightarrow> number \<times> number \<Rightarrow> number \<times> number" where
  "maxPass maxSize = (\<lambda>(newWidth, newHeight).
     if newWidth > maxSize \<or> newHeight > maxSize then
       (if newWidth > newHeight
        then (maxSize, fmul (fdiv newHeight newWidth) maxSize)
        else (fmul (fdiv newWidth newHeight) maxSize, maxSize))
     else (newWidth, newHeight))"

text \<open>\<^verbatim>\<open>// Resize based on min dimension\<close>\<close>

definition minPass :: "number \<Rightarrow> number \<times> number \<Rightarrow> number \<times> number" where
  "minPass minSize = (\<lambda>(newWidth, newHeight).
     if newWidth < minSize \<or> newHeight < minSize then
       (if newWidth < newHeight
        then (fmul (fdiv newWidth newHeight) minSize, minSize)
        else (minSize, fmul (fdiv newHeight newWidth) minSize))
     else (newWidth, newHeight))"

text \<open>The two passes in the order of the source, before rounding.\<close>

definition clampDims :: "number \<Rightarrow> number \<Rightarrow> number \<times> number \<Rightarrow> number \<times> number" where
  "clampDims minSize maxSize d = minPass minSize (maxPass maxSize d)"

text \<open>The pair written to \<^verbatim>\<open>canvas.width\<close> and \<^verbatim>\<open>canvas.height\<close>.\<close>

definition resizeDims :: "number \<Rightarrow> number \<Rightarrow> number \<times> number \<Rightarrow> number \<times> number" where
  "resizeDims minSize maxSize d =
     (case clampDims minSize maxSize d of
        (newWidth, newHeight) \<Rightarrow> (Math_round newWidth, Math_round newHeight))"

text \<open>The conditions under which each pass changes its input.\<close>

definition maxPassFires :: "number \<Rightarrow> number \<times> number \<Rightarrow> bool" where
  "maxPassFires maxSize = (\<lambda>(newWidth, newHeight). newWidth > maxSize \<or> newHeight > maxSize)"

definition minPassFires :: "number \<Rightarrow> number \<times> number \<Rightarrow> bool" where
  "minPassFires minSize = (\<lambda>(newWidth, newHeight). newWidth < minSize \<or> newHeight < minSize)"

text \<open>What the per-file work leaves behind: the pushed image, messages, encoder calls.\<close>

record result =
  pushed :: "ResizedImage option"
  set_messages :: "message list"
  encode_calls :: "encodeCall list"

definition dimensionResize ::
  "browser \<Rightarrow> File \<Rightarrow> img \<Rightarrow> number \<Rightarrow> number \<Rightarrow> result" where
  "dimensionResize b f im minSize maxSize =
     (case resizeDims minSize maxSize (of_nat (img_width im), of_nat (img_height im)) of
        (newWidth, newHeight) \<Rightarrow>
          \<lparr>pushed = Some \<lparr>dataUrl = toDataURL b newWidth newHeight ''image/png'' None,
                          name = ''resized_dim_'' @ file_name f\<rparr>,
           set_messages = [],
           encode_calls = [\<lparr>call_width = newWidth, call_height = newHeight,
                            call_type = ''image/png'', call_quality = None\<rparr>]\<rparr>)"

section \<open>File-size-based resizing\<close>

record fs_state =
  currentQuality :: number
  currentWidth :: number
  currentHeight :: number
  currentFileSizeKB :: number
  iterations :: nat
  lastValidDataUrl :: string
  lastValidFileSizeKB :: number
  resizedDataUrl :: string
  messages :: "message list"
  calls :: "encodeCall list"

definition maxIterations :: nat where
  "maxIterations = 100"

text \<open>
  \<^verbatim>\<open>updateCanvasAndGetSize(width, height, quality)\<close>, with the log of encoder calls passed
  through.
\<close>

definition updateCanvasAndGetSize ::
  "browser \<Rightarrow> number \<Rightarrow> number \<Rightarrow> number \<Rightarrow> encodeCall list
     \<Rightarrow> string \<times> number \<times> encodeCall list" where
  "updateCanvasAndGetSize b w h quality cs =
     (let url = toDataURL b w h ''image/jpeg'' (Some quality);
          sizeKB = fdiv (of_nat (blobSize b url)) 1024
      in (url, sizeKB,
          cs @ [\<lparr>call_width = w, call_height = h,
                  call_type = ''image/jpeg'', call_quality = Some quality\<rparr>]))"

text \<open>The state after \<^verbatim>\<open>// Initial check with current dimensions and quality\<close>.\<close>

definition initialRender :: "browser \<Rightarrow> img \<Rightarrow> fs_state" where
  "initialRender b im =
     (case updateCanvasAndGetSize b (of_nat (img_width im)) (of_nat (img_height im))
             (fl (9 / 10)) [] of
        (initialDataUrl, initialSizeKB, cs) \<Rightarrow>
          \<lparr>currentQuality = fl (9 / 10),
           currentWidth = of_nat (img_width im),
           currentHeight = of_nat (img_height im),
           currentFileSizeKB = initialSizeKB,
           iterations = 0,
           lastValidDataUrl = [],
           lastValidFileSizeKB = 0,
           resizedDataUrl = initialDataUrl,
           messages = [],
           calls = cs\<rparr>)"

text \<open>The adjustment at the head of one iteration: quality first, then dimensions.\<close>

definition adjust :: "fs_state \<Rightarrow> fs_state" where
  "adjust s =
     (if currentQuality s > fl (1 / 10)
      then s\<lparr>currentQuality := max (fl (1 / 10)) (fsub (currentQuality s) (fl (1 / 20)))\<rparr>
      else let scaleFactor = fl (9 / 10);
               w = Math_round (fmul (currentWidth s) scaleFactor);
               h = Math_round (fmul (currentHeight s) scaleFactor)
           in s\<lparr>currentWidth := (if w < 1 then 1 else w),
                 currentHeight := (if h < 1 then 1 else h)\<rparr>)"

text \<open>One pass through the loop body; the flag says that \<^verbatim>\<open>break\<close> was reached.\<close>

definition loopBody :: "browser \<Rightarrow> number \<Rightarrow> number \<Rightarrow> fs_state \<Rightarrow> fs_state \<times> bool" where
  "loopBody b minFileSize maxFileSize s =
     (let s1 = adjust (s\<lparr>iterations := iterations s + 1\<rparr>)
      in case updateCanvasAndGetSize b (currentWidth s1) (currentHeight s1)
                (currentQuality s1) (calls s1) of
           (newDataUrl, newSizeKB, cs) \<Rightarrow>
             let s2 = s1\<lparr>currentFileSizeKB := newSizeKB, resizedDataUrl := newDataUrl,
                         calls := cs\<rparr>
             in if currentFileSizeKB s2 \<le> maxFileSize
                then (s2\<lparr>lastValidDataUrl := resizedDataUrl s2,
                         lastValidFileSizeKB := currentFileSizeKB s2\<rparr>,
                      currentFileSizeKB s2 \<ge> minFileSize)
                else (s2, False))"

definition loopCond :: "number \<Rightarrow> fs_state \<Rightarrow> bool" where
  "loopCond maxFileSize s = (currentFileSizeKB s > maxFileSize \<and> iterations s < maxIterations)"

function whileLoop :: "browser \<Rightarrow> number \<Rightarrow> number \<Rightarrow> fs_state \<Rightarrow> fs_state" where
  "whileLoop b minFileSize maxFileSize s =
     (if loopCond maxFileSize s
      then (case loopBody b minFileSize maxFileSize s of
              (s', brk) \<Rightarrow> if brk then s' else whileLoop b minFileSize maxFileSize s')
      else s)"
  by pat_completeness auto
termination
proof (relation "measure (\<lambda>(b, minFileSize, maxFileSize, s). maxIterations - iterations s)")
  show "wf (measure (\<lambda>(b, minFileSize, maxFileSize, s). maxIterations - iterations s))"
    by simp
next
  fix b :: browser and minFileSize maxFileSize :: number and s x :: fs_state and y :: bool
  assume c: "loopCond maxFileSize s" and "(x, y) = loopBody b minFileSize maxFileSize s"
  then have "x = fst (loopBody b minFileSize maxFileSize s)"
    by (metis fst_conv)
  then have "iterations x = Suc (iterations s)"
    by (simp add: loopBody_def adjust_def updateCanvasAndGetSize_def Let_def)
  with c show "((b, minFileSize, maxFileSize, x), (b, minFileSize, maxFileSize, s))
      \<in> measure (\<lambda>(b, minFileSize, maxFileSize, s). maxIterations - iterations s)"
    by (auto simp: loopCond_def intro: diff_less_mono2)
qed

declare whileLoop.simps [simp del]

text \<open>The file-size branch for one file, up to the choice of the data URL to push.\<close>

definition fileSizeSearch :: "browser \<Rightarrow> File \<Rightarrow> img \<Rightarrow> number \<Rightarrow> number \<Rightarrow> fs_state" where
  "fileSizeSearch b f im minFileSize maxFileSize =
     (let s = initialRender b im
      in if currentFileSizeKB s \<ge> minFileSize \<and> currentFileSizeKB s \<le> maxFileSize
         then s\<lparr>lastValidDataUrl := resizedDataUrl s,
                 lastValidFileSizeKB := currentFileSizeKB s\<rparr>
         else if currentFileSizeKB s < minFileSize
         then s\<lparr>lastValidDataUrl := resizedDataUrl s,
                 lastValidFileSizeKB := currentFileSizeKB s,
                 messages := messages s @
                   [AlreadySmaller (file_name f) minFileSize (currentFileSizeKB s)]\<rparr>
         else let s' = whileLoop b minFileSize maxFileSize s
              in if lastValidDataUrl s' \<noteq> []
                 then s'\<lparr>resizedDataUrl := lastValidDataUrl s',
                          currentFileSizeKB := lastValidFileSizeKB s'\<rparr>
                 else s'\<lparr>messages := messages s' @
                            [CouldNotResize (file_name f) (currentFileSizeKB s')]\<rparr>)"

text \<open>\<^verbatim>\<open>// Ensure the output file name has a .jpeg extension\<close>\<close>

definition outputFileName :: "File \<Rightarrow> string" where
  "outputFileName f =
     ''resized_filesize_'' @
     str_join ''.'' (slice_0_minus1 (str_split (CHR ''.'') (file_name f))) @ ''.jpeg''"

definition fileSizeResize ::
  "browser \<Rightarrow> File \<Rightarrow> img \<Rightarrow> number \<Rightarrow> number \<Rightarrow> result" where
  "fileSizeResize b f im minFileSize maxFileSize =
     (let s = fileSizeSearch b f im minFileSize maxFileSize
      in \<lparr>pushed = Some \<lparr>dataUrl = resizedDataUrl s, name = outputFileName f\<rparr>,
          set_messages = messages s,
          encode_calls = calls s\<rparr>)"

text \<open>
  The body of the loop over the selected files, for a file whose image has been decoded
  and with the canvas available. A failing decoder or encoder (the \<^verbatim>\<open>catch\<close> branch)
  and a missing canvas are outside the model, and so is the closing
  \<^verbatim>\<open>setMessage("Images resized successfully!")\<close> of the whole batch.
\<close>

definition processFile ::
  "browser \<Rightarrow> resizeMode \<Rightarrow> number \<Rightarrow> number \<Rightarrow> number \<Rightarrow> number \<Rightarrow> File \<Rightarrow> img \<Rightarrow> result" where
  "processFile b mode minSize maxSize minFileSize maxFileSize f im =
     (if \<not> startsWith (file_type f) ''image/''
      then \<lparr>pushed = None, set_messages = [SkippingNonImage (file_name f)], encode_calls = []\<rparr>
      else if mode = dimensions
      then dimensionResize b f im minSize maxSize
      else fileSizeResize b f im minFileSize maxFileSize)"

section \<open>Observing a run\<close>

text \<open>The data URL and the size in KB that the browser gives for a logged call.\<close>

definition callUrl :: "browser \<Rightarrow> encodeCall \<Rightarrow> string" where
  "callUrl b c = toDataURL b (call_width c) (call_height c) (call_type c) (call_quality c)"

definition callSizeKB :: "browser \<Rightarrow> encodeCall \<Rightarrow> number" where
  "callSizeKB b c = fdiv (of_nat (blobSize b (callUrl b c))) 1024"

text \<open>
  The states at the head of the \<^verbatim>\<open>while\<close> loop started in \<open>s0\<close>, and the state in
  which it is left: each is the start or the outcome of a body run from a state that
  passes the loop test. A state left by \<^verbatim>\<open>break\<close> fails the loop test, so nothing
  follows it.
\<close>

inductive loopReach :: "browser \<Rightarrow> number \<Rightarrow> number \<Rightarrow> fs_state \<Rightarrow> fs_state \<Rightarrow> bool"
  for b :: browser and minFileSize :: number and maxFileSize :: number and s0 :: fs_state
  where
    start: "loopReach b minFileSize maxFileSize s0 s0"
  | step: "loopReach b minFileSize maxFileSize s0 s \<Longrightarrow> loopCond maxFileSize s
      \<Longrightarrow> loopReach b minFileSize maxFileSize s0 (fst (loopBody b minFileSize maxFileSize s))"

code_pred loopReach .

section \<open>Predicates used in the statements\<close>

text \<open>A JPEG call with the given canvas size and quality, as the file-size branch logs it.\<close>

definition jpegCall :: "number \<Rightarrow> number \<Rightarrow> number \<Rightarrow> encodeCall" where
  "jpegCall w h q = \<lparr>call_width = w, call_height = h, call_type = ''image/jpeg'',
      call_quality = Some q\<rparr>"

text \<open>The call that the next pass through the loop body makes.\<close>

definition nextCall :: "fs_state \<Rightarrow> encodeCall" where
  "nextCall s = \<lparr>call_width = currentWidth (adjust s), call_height = currentHeight (adjust s),
       call_type = ''image/jpeg'', call_quality = Some (currentQuality (adjust s))\<rparr>"

definition isJpeg :: "encodeCall \<Rightarrow> bool" where
  "isJpeg c = (call_type c = ''image/jpeg'')"

definition isPng :: "encodeCall \<Rightarrow> bool" where
  "isPng c = (call_type c = ''image/png'')"

text \<open>A data URL of a file in the format \<open>t\<close>.\<close>

definition encodedAs :: "string \<Rightarrow> string \<Rightarrow> bool" where
  "encodedAs t url = startsWith url (''data:'' @ t @ '';base64,'')"

text \<open>A call whose data URL, as the browser returns it, is a JPEG.\<close>

definition jpegOut :: "browser \<Rightarrow> encodeCall \<Rightarrow> bool" where
  "jpegOut b c = encodedAs ''image/jpeg'' (callUrl b c)"

text \<open>A render whose size lies inside the byte envelope, and one above its maximum.\<close>

definition inEnvelope :: "browser \<Rightarrow> number \<Rightarrow> number \<Rightarrow> encodeCall \<Rightarrow> bool" where
  "inEnvelope b minFileSize maxFileSize c =
     (minFileSize \<le> callSizeKB b c \<and> callSizeKB b c \<le> maxFileSize)"

definition overMax :: "browser \<Rightarrow> number \<Rightarrow> encodeCall \<Rightarrow> bool" where
  "overMax b maxFileSize c = (maxFileSize < callSizeKB b c)"

text \<open>
  A render on a canvas of at least 1 by 1 at a quality of at least \<^verbatim>\<open>0.1\<close>, the
  binary64 value of the literal (which is above one tenth).
\<close>

definition renderOk :: "encodeCall \<Rightarrow> bool" where
  "renderOk c = (1 \<le> call_width c \<and> 1 \<le> call_height c \<and>
     (case call_quality c of None \<Rightarrow> False | Some q \<Rightarrow> fl (1 / 10) \<le> q))"

text \<open>The bounds on the search variables, and on every render made so far.\<close>

definition searchInv :: "fs_state \<Rightarrow> bool" where
  "searchInv s = (iterations s \<le> maxIterations \<and> fl (1 / 10) \<le> currentQuality s
     \<and> 1 \<le> currentWidth s \<and> 1 \<le> currentHeight s \<and> list_all renderOk (calls s))"

text \<open>The quality after \<open>k\<close> quality steps from \<^verbatim>\<open>0.9\<close>.\<close>

primrec qualityAt :: "nat \<Rightarrow> number" where
  "qualityAt 0 = fl (9 / 10)"
| "qualityAt (Suc k) = max (fl (1 / 10)) (fsub (qualityAt k) (fl (1 / 20)))"

text \<open>
  The working dimensions are whole numbers and the quality is the one reached after some
  number of quality steps, at most 16 of them.
\<close>

definition searchGrid :: "fs_state \<Rightarrow> bool" where
  "searchGrid s = (currentWidth s \<in> \<int> \<and> currentHeight s \<in> \<int>
     \<and> (\<exists>k::nat. k \<le> 16 \<and> currentQuality s = qualityAt k))"

text \<open>
  The bookkeeping of the loop: the current data URL and size are those of the last render,
  no message has been set, the candidate is the current render when that is at most the
  maximum and is unset otherwise, every render was a JPEG, and every render but the last
  was over the maximum.
\<close>

definition searchSync :: "browser \<Rightarrow> number \<Rightarrow> fs_state \<Rightarrow> bool" where
  "searchSync b maxFileSize s =
     (calls s \<noteq> [] \<and> resizedDataUrl s = callUrl b (last (calls s))
      \<and> currentFileSizeKB s = callSizeKB b (last (calls s))
      \<and> messages s = []
      \<and> (if currentFileSizeKB s \<le> maxFileSize
          then lastValidDataUrl s = resizedDataUrl s \<and> lastValidFileSizeKB s = currentFileSizeKB s
          else lastValidDataUrl s = [])
      \<and> list_all isJpeg (calls s)
      \<and> list_all (overMax b maxFileSize) (butlast (calls s)))"

section \<open>Concrete browsers and inputs\<close>

text \<open>
  A browser whose JPEG is 500 KB (512000 bytes) down to a canvas 7 pixels wide and 10 KB
  (10240 bytes) below that, and a browser whose JPEG is 40 KB whatever the canvas.
\<close>

definition thinBrowser :: browser where
  "thinBrowser =
     \<lparr>encodeBase64 = (\<lambda>w h t q. if w < 7 then ''s'' else ''L''),
      blobSize = (\<lambda>url. if url = ''data:image/jpeg;base64,s'' then 10240 else 512000)\<rparr>"

definition midBrowser :: browser where
  "midBrowser = \<lparr>encodeBase64 = (\<lambda>w h t q. ''m''), blobSize = (\<lambda>url. 40960)\<rparr>"

definition stripFile :: File where
  "stripFile = \<lparr>file_name = ''strip.png'', file_type = ''image/png''\<rparr>"

definition stripImg :: img where
  "stripImg = \<lparr>img_width = 40000, img_height = 1\<rparr>"

definition tinyImg :: img where
  "tinyImg = \<lparr>img_width = 4, img_height = 4\<rparr>"

text \<open>
  The states of the search on \<open>stripImg\<close> in \<open>thinBrowser\<close> while the render stays at
  500 KB, and the calls logged during its quality phase.
\<close>

definition overState :: "number \<Rightarrow> number \<Rightarrow> number \<Rightarrow> nat \<Rightarrow> encodeCall list \<Rightarrow> fs_state" where
  "overState q w h it cs =
     \<lparr>currentQuality = q, currentWidth = w, currentHeight = h, currentFileSizeKB = 500,
      iterations = it, lastValidDataUrl = [], lastValidFileSizeKB = 0,
      resizedDataUrl = ''data:image/jpeg;base64,L'', messages = [], calls = cs\<rparr>"

definition thinQualityCalls :: "nat \<Rightarrow> encodeCall list" where
  "thinQualityCalls n = map (\<lambda>k. jpegCall 40000 1 (qualityAt k)) [0..<n]"

section \<open>Rounding to binary64\<close>

lemma floor_rat_numeral_divide [simp]:
  "\<lfloor>(numeral a / numeral b :: rat)\<rfloor> = numeral a div numeral b"
  using floor_divide_of_int_eq [of "numeral a" "numeral b", where ?'a = rat] by simp

lemma floor_rat_one_divide [simp]:
  "\<lfloor>(1 / numeral b :: rat)\<rfloor> = 1 div numeral b"
  using floor_divide_of_int_eq [of 1 "numeral b", where ?'a = rat] by simp

lemma floor_rat_neg_numeral_divide [simp]:
  "\<lfloor>(- (numeral a / numeral b) :: rat)\<rfloor> = - numeral a div numeral b"
  using floor_divide_of_int_eq [of "- numeral a" "numeral b", where ?'a = rat] by simp

lemma bitlen_Bit0 [simp]: "bitlen (numeral (Num.Bit0 n)) = bitlen (numeral n) + 1"
  by (subst compute_bitlen) simp

lemma bitlen_Bit1 [simp]: "bitlen (numeral (Num.Bit1 n)) = bitlen (numeral n) + 1"
  by (subst compute_bitlen) simp

lemma bitlen_One [simp]: "bitlen (numeral Num.One) = 1"
  by (subst compute_bitlen) simp

lemma bitlen_one [simp]: "bitlen 1 = 1"
  by (subst compute_bitlen) simp

lemmas fl_eval = fl_def ulpExp_def ilog2_def roundEven_def Let_def fdiv_def fmul_def fsub_def

lemma ilog2_bounds:
  assumes "0 < x"
  shows "2 powi ilog2 x \<le> x" "x < 2 powi (ilog2 x + 1)"
proof -
  have "2 powi ilog2 x \<le> x \<and> x < 2 powi (ilog2 x + 1)"
  proof (cases "1 \<le> x")
    case True
    define n where "n = \<lfloor>x\<rfloor>"
    have n1: "1 \<le> n" using True by (simp add: n_def le_floor_iff)
    then have n0: "0 < n" by simp
    have b: "2 ^ nat (bitlen n - 1) \<le> n" "n < 2 ^ nat (bitlen n)"
      using bitlen_bounds [OF n0] by simp_all
    have bl: "1 \<le> bitlen n" using n0 bitlen_eq_zero_iff [of n] bitlen_nonneg [of n] by linarith
    have k: "ilog2 x = bitlen n - 1" using True by (simp add: ilog2_def n_def)
    have "(2::rat) powi (bitlen n - 1) = of_int (2 ^ nat (bitlen n - 1))"
      using bl by (simp add: power_int_nonneg_exp)
    also have "\<dots> \<le> of_int n" using b(1) by (simp only: of_int_le_iff)
    also have "\<dots> \<le> x" by (simp add: n_def)
    finally have lo: "2 powi ilog2 x \<le> x" by (simp add: k)
    have "n + 1 \<le> 2 ^ nat (bitlen n)" using b(2) by simp
    then have "(of_int (n + 1) :: rat) \<le> of_int (2 ^ nat (bitlen n))" by (simp only: of_int_le_iff)
    moreover have "x < of_int (n + 1)" using floor_correct [of x] by (simp add: n_def)
    ultimately have "x < of_int (2 ^ nat (bitlen n))" by linarith
    also have "\<dots> = 2 powi (bitlen n)" using bl by (simp add: power_int_nonneg_exp)
    finally have "x < 2 powi (ilog2 x + 1)" by (simp add: k)
    with lo show ?thesis by simp
  next
    case False
    then have x1: "x < 1" by simp
    define y where "y = 1 / x"
    have y1: "1 < y" using assms x1 by (simp add: y_def)
    define c where "c = - \<lfloor>- y\<rfloor>"
    have cy: "y \<le> of_int c" "of_int c - 1 < y"
      unfolding c_def by (simp_all; linarith)+
    define n where "n = c - 1"
    have "1 < (of_int c :: rat)" using y1 cy(1) by linarith
    then have n0: "0 < n" by (simp add: n_def)
    have b: "2 ^ nat (bitlen n - 1) \<le> n" "n < 2 ^ nat (bitlen n)"
      using bitlen_bounds [OF n0] by simp_all
    have bl: "1 \<le> bitlen n" using n0 bitlen_eq_zero_iff [of n] bitlen_nonneg [of n] by linarith
    have k: "ilog2 x = - bitlen n" using False by (simp add: ilog2_def n_def c_def y_def)
    have "c \<le> 2 ^ nat (bitlen n)" using b(2) by (simp add: n_def)
    then have "(of_int c :: rat) \<le> of_int (2 ^ nat (bitlen n))" by (simp only: of_int_le_iff)
    then have "(of_int c :: rat) \<le> 2 ^ nat (bitlen n)" by simp
    then have "y \<le> 2 ^ nat (bitlen n)" using cy(1) by linarith
    then have "1 / x \<le> 2 powi bitlen n" using bl by (simp add: y_def power_int_nonneg_exp)
    then have "1 \<le> 2 powi bitlen n * x" using assms by (simp add: field_simps)
    then have "1 / 2 powi bitlen n \<le> x" by (simp add: field_simps)
    then have lo: "2 powi ilog2 x \<le> x" by (simp add: k power_int_minus_divide)
    have "(of_int (2 ^ nat (bitlen n - 1)) :: rat) \<le> of_int n" using b(1) by (simp only: of_int_le_iff)
    then have "(2::rat) ^ nat (bitlen n - 1) \<le> of_int n" by simp
    then have "2 ^ nat (bitlen n - 1) < y" using cy(2) by (simp add: n_def)
    then have "2 powi (bitlen n - 1) < 1 / x" using bl by (simp add: y_def power_int_nonneg_exp)
    then have "2 powi (bitlen n - 1) * x < 1" using assms by (simp add: field_simps)
    then have "x < 1 / 2 powi (bitlen n - 1)" by (simp add: field_simps)
    also have "\<dots> = 2 powi (- (bitlen n - 1))" by (simp only: power_int_minus_divide)
    finally have "x < 2 powi (ilog2 x + 1)" by (simp add: k)
    with lo show ?thesis by simp
  qed
  then show "2 powi ilog2 x \<le> x" "x < 2 powi (ilog2 x + 1)" by simp_all
qed

lemma ilog2_mono:
  assumes "0 < x" "x \<le> y"
  shows "ilog2 x \<le> ilog2 y"
proof (rule ccontr)
  assume "\<not> ilog2 x \<le> ilog2 y"
  then have "ilog2 y + 1 \<le> ilog2 x" by simp
  then have "(2::rat) powi (ilog2 y + 1) \<le> 2 powi ilog2 x"
    by (intro power_int_increasing) simp_all
  moreover have "y < 2 powi (ilog2 y + 1)" using ilog2_bounds(2) [of y] assms by simp
  moreover have "2 powi ilog2 x \<le> x" using ilog2_bounds(1) [OF assms(1)] .
  ultimately show False using assms(2) by linarith
qed

lemma roundEven_bounds:
  "of_int (roundEven y) \<le> y + 1 / 2" "y - 1 / 2 \<le> of_int (roundEven y)"
  unfolding roundEven_def Let_def
  by (auto; linarith)+

lemma roundEven_of_int [simp]: "roundEven (of_int n) = n"
  by (simp add: roundEven_def)

lemma roundEven_range: "\<lfloor>z\<rfloor> \<le> roundEven z" "roundEven z \<le> \<lfloor>z\<rfloor> + 1"
  by (simp_all add: roundEven_def Let_def)

lemma roundEven_mono:
  assumes "x \<le> y"
  shows "roundEven x \<le> roundEven y"
proof (cases "\<lfloor>x\<rfloor> < \<lfloor>y\<rfloor>")
  case True
  then show ?thesis using roundEven_range(2) [of x] roundEven_range(1) [of y] by linarith
next
  case False
  then have e: "\<lfloor>x\<rfloor> = \<lfloor>y\<rfloor>" using floor_mono [OF assms] by linarith
  have "x - of_int \<lfloor>y\<rfloor> \<le> y - of_int \<lfloor>y\<rfloor>" using assms by simp
  then show ?thesis unfolding roundEven_def Let_def e by auto
qed

lemma ulpExp_mono:
  assumes "0 < x" "x \<le> y"
  shows "ulpExp x \<le> ulpExp y"
  using ilog2_mono [OF assms] by (simp add: ulpExp_def)

lemma fl_pos: "0 < x \<Longrightarrow> fl x = of_int (roundEven (x / 2 powi ulpExp x)) * 2 powi ulpExp x"
  by (simp add: fl_def)

lemma fl_nonneg: "0 \<le> x \<Longrightarrow> 0 \<le> fl x"
proof (cases "x = 0")
  case True
  then show ?thesis by (simp add: fl_def)
next
  case False
  assume "0 \<le> x"
  with False have p: "0 < x" by simp
  have "0 \<le> x / 2 powi ulpExp x" using p by simp
  then have "0 \<le> \<lfloor>x / 2 powi ulpExp x\<rfloor>" by simp
  then have "0 \<le> roundEven (x / 2 powi ulpExp x)"
    using roundEven_range(1) [of "x / 2 powi ulpExp x"] by linarith
  then show ?thesis using p by (simp add: fl_pos)
qed

lemma fl_mono_pos:
  assumes "0 < x" "x \<le> y"
  shows "fl x \<le> fl y"
proof -
  have y: "0 < y" using assms by simp
  let ?ex = "ulpExp x" and ?ey = "ulpExp y"
  have le: "?ex \<le> ?ey" by (rule ulpExp_mono [OF assms])
  show ?thesis
  proof (cases "?ex = ?ey")
    case True
    have "x / 2 powi ?ey \<le> y / 2 powi ?ey" using assms(2) by (simp add: divide_right_mono)
    then have "roundEven (x / 2 powi ?ey) \<le> roundEven (y / 2 powi ?ey)" by (rule roundEven_mono)
    then have "(of_int (roundEven (x / 2 powi ?ey)) :: rat) \<le> of_int (roundEven (y / 2 powi ?ey))"
      by (simp only: of_int_le_iff)
    then have "of_int (roundEven (x / 2 powi ?ey)) * 2 powi ?ey
        \<le> of_int (roundEven (y / 2 powi ?ey)) * (2::rat) powi ?ey"
      by (simp add: mult_right_mono)
    then show ?thesis using assms(1) y True by (simp add: fl_pos)
  next
    case False
    then have lt: "?ex < ?ey" using le by simp
    then have ey: "?ey = ilog2 y - 52" and exm: "- 1074 \<le> ?ex" by (auto simp: ulpExp_def)
    define k where "k = ilog2 y"
    have d: "0 \<le> k - ?ex" using lt ey by (simp add: k_def)
    have must: "ilog2 x + 1 \<le> k" using lt ey by (simp add: ulpExp_def k_def)
    have "x < 2 powi (ilog2 x + 1)" by (rule ilog2_bounds(2) [OF assms(1)])
    also have "\<dots> \<le> 2 powi k" using must by (intro power_int_increasing) simp_all
    finally have xk: "x < 2 powi k" .
    have "x / 2 powi ?ex \<le> 2 powi k / 2 powi ?ex" using xk by (simp add: divide_right_mono)
    also have "\<dots> = 2 powi (k - ?ex)" by (simp add: power_int_diff)
    also have "\<dots> = of_int (2 ^ nat (k - ?ex))" using d by (simp add: power_int_nonneg_exp)
    finally have "roundEven (x / 2 powi ?ex) \<le> roundEven (of_int (2 ^ nat (k - ?ex)))"
      by (rule roundEven_mono)
    then have "roundEven (x / 2 powi ?ex) \<le> 2 ^ nat (k - ?ex)" by (simp only: roundEven_of_int)
    then have "(of_int (roundEven (x / 2 powi ?ex)) :: rat) \<le> of_int (2 ^ nat (k - ?ex))"
      by (simp only: of_int_le_iff)
    then have "of_int (roundEven (x / 2 powi ?ex)) * 2 powi ?ex
        \<le> of_int (2 ^ nat (k - ?ex)) * (2::rat) powi ?ex"
      by (simp add: mult_right_mono)
    also have "of_int (2 ^ nat (k - ?ex)) * (2::rat) powi ?ex = 2 powi (k - ?ex) * 2 powi ?ex"
      using d by (simp add: power_int_nonneg_exp)
    also have "\<dots> = 2 powi k" by (simp add: power_int_diff)
    finally have fx: "fl x \<le> 2 powi k" using assms(1) by (simp add: fl_pos)
    have "2 powi k \<le> y" unfolding k_def by (rule ilog2_bounds(1) [OF y])
    then have "2 powi k / 2 powi ?ey \<le> y / 2 powi ?ey" by (simp add: divide_right_mono)
    moreover have "2 powi k / (2::rat) powi ?ey = of_int (2 ^ 52)"
      by (simp add: ey k_def power_int_diff [symmetric])
    ultimately have "roundEven (of_int (2 ^ 52)) \<le> roundEven (y / 2 powi ?ey)"
      by (intro roundEven_mono) simp
    then have "2 ^ 52 \<le> roundEven (y / 2 powi ?ey)" by (simp only: roundEven_of_int)
    then have "(of_int (2 ^ 52) :: rat) \<le> of_int (roundEven (y / 2 powi ?ey))"
      by (simp only: of_int_le_iff)
    then have A: "of_int (2 ^ 52) * (2::rat) powi ?ey \<le> of_int (roundEven (y / 2 powi ?ey)) * 2 powi ?ey"
      by (intro mult_right_mono) simp_all
    have B: "of_int (2 ^ 52) * (2::rat) powi ?ey = 2 powi k"
    proof -
      have "(2::rat) powi 52 * 2 powi (k - 52) = 2 powi (52 + (k - 52))"
        by (subst power_int_add) simp_all
      then show ?thesis by (simp add: ey k_def)
    qed
    have "fl y = of_int (roundEven (y / 2 powi ?ey)) * 2 powi ?ey" using y by (rule fl_pos)
    with A [unfolded B] have "2 powi k \<le> fl y" by simp
    with fx show ?thesis by linarith
  qed
qed

lemma fl_mono:
  assumes "0 \<le> x" "x \<le> y"
  shows "fl x \<le> fl y"
proof (cases "x = 0")
  case True
  then show ?thesis using assms fl_nonneg [of y] by (simp add: fl_def)
next
  case False
  then show ?thesis using assms fl_mono_pos by simp
qed

lemma fl_of_int:
  assumes "0 \<le> n" "n < 2 ^ 53"
  shows "fl (of_int n) = of_int n"
proof (cases "n = 0")
  case True
  then show ?thesis by (simp add: fl_def)
next
  case False
  then have n: "0 < n" "1 \<le> n" using assms by simp_all
  have x1: "(1::rat) \<le> of_int n" using n by simp
  have k: "ilog2 (of_int n) = bitlen n - 1" using x1 by (simp add: ilog2_def)
  have bl: "1 \<le> bitlen n" "bitlen n \<le> 53"
    using n(1) bitlen_eq_zero_iff [of n] bitlen_nonneg [of n] assms(2)
      bitlen_le_iff_power [of n 53] by (simp_all; linarith)+
  define e where "e = bitlen n - 53"
  have e: "ulpExp (of_int n) = e" "e \<le> 0" using bl by (simp_all add: ulpExp_def k e_def)
  have p: "(2::rat) powi e = 1 / 2 ^ nat (- e)"
    using e(2) by (simp add: power_int_def inverse_eq_divide power_one_over)
  have "of_int n / (2::rat) powi e = of_int (n * 2 ^ nat (- e))" by (simp add: p)
  then have "roundEven (of_int n / (2::rat) powi e) = n * 2 ^ nat (- e)"
    by (simp only: roundEven_of_int)
  then have "fl (of_int n) = of_int (n * 2 ^ nat (- e)) * 2 powi e"
    using n(1) by (simp add: fl_pos e(1))
  also have "\<dots> = of_int n" by (simp add: p)
  finally show ?thesis .
qed

section \<open>The dimension resizer\<close>

lemma Math_round_round: "Math_round x = of_int (round x)"
  by (simp add: Math_round_def round_def)

lemma Math_round_mono: "x \<le> y \<Longrightarrow> Math_round x \<le> Math_round y"
  by (simp add: Math_round_round round_mono)

lemma Math_round_Ints: "x \<in> \<int> \<Longrightarrow> Math_round x = x"
  by (auto simp: Math_round_round elim!: Ints_cases)

lemma Math_round_in_Ints: "Math_round x \<in> \<int>"
  by (simp add: Math_round_def)


lemma fl_of_nat: "n < 2 ^ 53 \<Longrightarrow> fl (of_nat n) = of_nat n"
proof -
  assume "n < 2 ^ 53"
  then have "int n < 2 ^ 53" by (metis of_nat_less_iff of_nat_numeral of_nat_power)
  then show ?thesis using fl_of_int [of "int n"] by simp
qed



text \<open>
  The two passes in binary64 lose ties that exact arithmetic keeps: for 61 by 118 in the
  envelope 9 to 59 the width is \<^verbatim>\<open>(61 / 118) * 59\<close>, just below 30.5, and for 1 by 18 in
  the envelope 9 to 14 the width after both passes is just below 0.5.
\<close>

lemma resize_lost_ties:
  "resizeDims 9 59 (61, 118) = (30, 59)" "resizeDims 9 14 (1, 18) = (0, 9)"
  by (simp_all add: resizeDims_def clampDims_def minPass_def maxPass_def Math_round_def fl_eval)

text \<open>
  Claim C1. The min pass tests whether a side is below the minimum and then puts the
  longer side on the minimum, where step 2 of the specification puts the shorter side
  there. An image of 200 by 50 in the envelope 100 to 800 is left alone by the max pass,
  the min pass fires on it, and the canvas is 100 by 25: the height is below the minimum,
  although 400 by 100 has the aspect ratio of the image and lies inside the envelope.
\<close>

theorem min_pass_shrinks:
  "validDimensions 100 800 \<and> \<not> maxPassFires 800 (200, 50)
   \<and> minPassFires 100 (maxPass 800 (200, 50))
   \<and> resizeDims 100 800 (200, 50) = (100, 25)
   \<and> snd (resizeDims 100 800 (200, 50)) < 100
   \<and> encode_calls (dimensionResize b f \<lparr>img_width = 200, img_height = 50\<rparr> 100 800)
       = [\<lparr>call_width = 100, call_height = 25, call_type = ''image/png'', call_quality = None\<rparr>]"
  by (simp add: validDimensions_def maxPassFires_def minPassFires_def dimensionResize_def
      resizeDims_def clampDims_def minPass_def maxPass_def Math_round_def fl_eval)




text \<open>
  Claim C8. The dimension branch rounds and does not floor at 1: an image of 1024 by 2 in
  the envelope 128 to 2048 is given the canvas 128 by 0. The file-size branch has the
  floor (\<^verbatim>\<open>// Ensure dimensions don't go below 1x1\<close>).
\<close>

theorem dims_zero_height:
  "validDimensions 128 2048 \<and> resizeDims 128 2048 (1024, 2) = (128, 0)
   \<and> encode_calls (dimensionResize b f \<lparr>img_width = 1024, img_height = 2\<rparr> 128 2048)
       = [\<lparr>call_width = 128, call_height = 0, call_type = ''image/png'', call_quality = None\<rparr>]"
  by (simp add: validDimensions_def dimensionResize_def resizeDims_def clampDims_def minPass_def
      maxPass_def Math_round_def fl_eval)

section \<open>The quality and width sequences of the search\<close>

lemma literal_values:
  "fl (9 / 10) = 8106479329266893 / 9007199254740992"
  "fl (1 / 20) = 3602879701896397 / 72057594037927936"
  "fl (1 / 10) = 3602879701896397 / 36028797018963968"
  by (simp_all add: fl_eval)

lemma qualityAt_values:
  "qualityAt 0 = 8106479329266893 / 9007199254740992"
  "qualityAt (Suc 0) = 7656119366529843 / 9007199254740992"
  "qualityAt 2 = 7205759403792793 / 9007199254740992"
  "qualityAt 3 = 6755399441055743 / 9007199254740992"
  "qualityAt 4 = 6305039478318693 / 9007199254740992"
  "qualityAt 5 = 5854679515581643 / 9007199254740992"
  "qualityAt 6 = 5404319552844593 / 9007199254740992"
  "qualityAt 7 = 4953959590107543 / 9007199254740992"
  "qualityAt 8 = 9007199254740987 / 18014398509481984"
  "qualityAt 9 = 1013309916158361 / 2251799813685248"
  "qualityAt 10 = 7205759403792789 / 18014398509481984"
  "qualityAt 11 = 3152519739159345 / 9007199254740992"
  "qualityAt 12 = 5404319552844591 / 18014398509481984"
  "qualityAt 13 = 1125899906842623 / 4503599627370496"
  "qualityAt 14 = 3602879701896393 / 18014398509481984"
  "qualityAt 15 = 1351079888211147 / 9007199254740992"
  "qualityAt 16 = 3602879701896397 / 36028797018963968"
proof -
  show q0: "qualityAt 0 = 8106479329266893 / 9007199254740992" by (simp add: literal_values)
  show q1: "qualityAt (Suc 0) = 7656119366529843 / 9007199254740992"
    by (simp add: q0 literal_values fl_eval)
  show q2: "qualityAt 2 = 7205759403792793 / 9007199254740992"
  proof -
    have "qualityAt 2 = qualityAt (Suc (Suc 0))" by (simp only: numeral_2_eq_2)
    also have "\<dots> = max (fl (1 / 10)) (fsub (qualityAt (Suc 0)) (fl (1 / 20)))"
      by (simp only: qualityAt.simps)
    also have "\<dots> = 7205759403792793 / 9007199254740992"
      apply (simp only: q1 literal_values)
      apply (simp add: fsub_def)
      apply (simp add: fl_eval)
      done
    finally show ?thesis .
  qed
  show q3: "qualityAt 3 = 6755399441055743 / 9007199254740992"
  proof -
    have "qualityAt 3 = qualityAt (Suc 2)" by simp
    also have "\<dots> = max (fl (1 / 10)) (fsub (qualityAt 2) (fl (1 / 20)))"
      by (simp only: qualityAt.simps)
    also have "\<dots> = 6755399441055743 / 9007199254740992"
      apply (simp only: q2 literal_values)
      apply (simp add: fsub_def)
      apply (simp add: fl_eval)
      done
    finally show ?thesis .
  qed
  show q4: "qualityAt 4 = 6305039478318693 / 9007199254740992"
  proof -
    have "qualityAt 4 = qualityAt (Suc 3)" by simp
    also have "\<dots> = max (fl (1 / 10)) (fsub (qualityAt 3) (fl (1 / 20)))"
      by (simp only: qualityAt.simps)
    also have "\<dots> = 6305039478318693 / 9007199254740992"
      apply (simp only: q3 literal_values)
      apply (simp add: fsub_def)
      apply (simp add: fl_eval)
      done
    finally show ?thesis .
  qed
  show q5: "qualityAt 5 = 5854679515581643 / 9007199254740992"
  proof -
    have "qualityAt 5 = qualityAt (Suc 4)" by simp
    also have "\<dots> = max (fl (1 / 10)) (fsub (qualityAt 4) (fl (1 / 20)))"
      by (simp only: qualityAt.simps)
    also have "\<dots> = 5854679515581643 / 9007199254740992"
      apply (simp only: q4 literal_values)
      apply (simp add: fsub_def)
      apply (simp add: fl_eval)
      done
    finally show ?thesis .
  qed
  show q6: "qualityAt 6 = 5404319552844593 / 9007199254740992"
  proof -
    have "qualityAt 6 = qualityAt (Suc 5)" by simp
    also have "\<dots> = max (fl (1 / 10)) (fsub (qualityAt 5) (fl (1 / 20)))"
      by (simp only: qualityAt.simps)
    also have "\<dots> = 5404319552844593 / 9007199254740992"
      apply (simp only: q5 literal_values)
      apply (simp add: fsub_def)
      apply (simp add: fl_eval)
      done
    finally show ?thesis .
  qed
  show q7: "qualityAt 7 = 4953959590107543 / 9007199254740992"
  proof -
    have "qualityAt 7 = qualityAt (Suc 6)" by simp
    also have "\<dots> = max (fl (1 / 10)) (fsub (qualityAt 6) (fl (1 / 20)))"
      by (simp only: qualityAt.simps)
    also have "\<dots> = 4953959590107543 / 9007199254740992"
      apply (simp only: q6 literal_values)
      apply (simp add: fsub_def)
      apply (simp add: fl_eval)
      done
    finally show ?thesis .
  qed
  show q8: "qualityAt 8 = 9007199254740987 / 18014398509481984"
  proof -
    have "qualityAt 8 = qualityAt (Suc 7)" by simp
    also have "\<dots> = max (fl (1 / 10)) (fsub (qualityAt 7) (fl (1 / 20)))"
      by (simp only: qualityAt.simps)
    also have "\<dots> = 9007199254740987 / 18014398509481984"
      apply (simp only: q7 literal_values)
      apply (simp add: fsub_def)
      apply (simp add: fl_eval)
      done
    finally show ?thesis .
  qed
  show q9: "qualityAt 9 = 1013309916158361 / 2251799813685248"
  proof -
    have "qualityAt 9 = qualityAt (Suc 8)" by simp
    also have "\<dots> = max (fl (1 / 10)) (fsub (qualityAt 8) (fl (1 / 20)))"
      by (simp only: qualityAt.simps)
    also have "\<dots> = 1013309916158361 / 2251799813685248"
      apply (simp only: q8 literal_values)
      apply (simp add: fsub_def)
      apply (simp add: fl_eval)
      done
    finally show ?thesis .
  qed
  show q10: "qualityAt 10 = 7205759403792789 / 18014398509481984"
  proof -
    have "qualityAt 10 = qualityAt (Suc 9)" by simp
    also have "\<dots> = max (fl (1 / 10)) (fsub (qualityAt 9) (fl (1 / 20)))"
      by (simp only: qualityAt.simps)
    also have "\<dots> = 7205759403792789 / 18014398509481984"
      apply (simp only: q9 literal_values)
      apply (simp add: fsub_def)
      apply (simp add: fl_eval)
      done
    finally show ?thesis .
  qed
  show q11: "qualityAt 11 = 3152519739159345 / 9007199254740992"
  proof -
    have "qualityAt 11 = qualityAt (Suc 10)" by simp
    also have "\<dots> = max (fl (1 / 10)) (fsub (qualityAt 10) (fl (1 / 20)))"
      by (simp only: qualityAt.simps)
    also have "\<dots> = 3152519739159345 / 9007199254740992"
      apply (simp only: q10 literal_values)
      apply (simp add: fsub_def)
      apply (simp add: fl_eval)
      done
    finally show ?thesis .
  qed
  show q12: "qualityAt 12 = 5404319552844591 / 18014398509481984"
  proof -
    have "qualityAt 12 = qualityAt (Suc 11)" by simp
    also have "\<dots> = max (fl (1 / 10)) (fsub (qualityAt 11) (fl (1 / 20)))"
      by (simp only: qualityAt.simps)
    also have "\<dots> = 5404319552844591 / 18014398509481984"
      apply (simp only: q11 literal_values)
      apply (simp add: fsub_def)
      apply (simp add: fl_eval)
      done
    finally show ?thesis .
  qed
  show q13: "qualityAt 13 = 1125899906842623 / 4503599627370496"
  proof -
    have "qualityAt 13 = qualityAt (Suc 12)" by simp
    also have "\<dots> = max (fl (1 / 10)) (fsub (qualityAt 12) (fl (1 / 20)))"
      by (simp only: qualityAt.simps)
    also have "\<dots> = 1125899906842623 / 4503599627370496"
      apply (simp only: q12 literal_values)
      apply (simp add: fsub_def)
      apply (simp add: fl_eval)
      done
    finally show ?thesis .
  qed
  show q14: "qualityAt 14 = 3602879701896393 / 18014398509481984"
  proof -
    have "qualityAt 14 = qualityAt (Suc 13)" by simp
    also have "\<dots> = max (fl (1 / 10)) (fsub (qualityAt 13) (fl (1 / 20)))"
      by (simp only: qualityAt.simps)
    also have "\<dots> = 3602879701896393 / 18014398509481984"
      apply (simp only: q13 literal_values)
      apply (simp add: fsub_def)
      apply (simp add: fl_eval)
      done
    finally show ?thesis .
  qed
  show q15: "qualityAt 15 = 1351079888211147 / 9007199254740992"
  proof -
    have "qualityAt 15 = qualityAt (Suc 14)" by simp
    also have "\<dots> = max (fl (1 / 10)) (fsub (qualityAt 14) (fl (1 / 20)))"
      by (simp only: qualityAt.simps)
    also have "\<dots> = 1351079888211147 / 9007199254740992"
      apply (simp only: q14 literal_values)
      apply (simp add: fsub_def)
      apply (simp add: fl_eval)
      done
    finally show ?thesis .
  qed
  show q16: "qualityAt 16 = 3602879701896397 / 36028797018963968"
  proof -
    have "qualityAt 16 = qualityAt (Suc 15)" by simp
    also have "\<dots> = max (fl (1 / 10)) (fsub (qualityAt 15) (fl (1 / 20)))"
      by (simp only: qualityAt.simps)
    also have "\<dots> = 3602879701896397 / 36028797018963968"
      apply (simp only: q15 literal_values)
      apply (simp add: fsub_def)
      apply (simp add: fl_eval)
      done
    finally show ?thesis .
  qed
qed

lemma quality_steps:
  assumes "k < 16"
  shows "fl (1 / 10) < qualityAt k" "qualityAt (Suc k) < qualityAt k"
    "\<bar>(qualityAt k - qualityAt (Suc k)) - 1 / 20\<bar> \<le> 1 / 2 ^ 50"
proof -
  have "k = 0 \<or> k = 1 \<or> k = 2 \<or> k = 3 \<or> k = 4 \<or> k = 5 \<or> k = 6 \<or> k = 7
    \<or> k = 8 \<or> k = 9 \<or> k = 10 \<or> k = 11 \<or> k = 12 \<or> k = 13 \<or> k = 14 \<or> k = 15"
    using assms by presburger
  moreover have q2: "qualityAt (Suc (Suc 0)) = 7205759403792793 / 9007199254740992"
    using qualityAt_values(3) by (simp only: numeral_2_eq_2)
  ultimately have "fl (1 / 10) < qualityAt k \<and> qualityAt (Suc k) < qualityAt k
    \<and> \<bar>(qualityAt k - qualityAt (Suc k)) - 1 / 20\<bar> \<le> 1 / 2 ^ 50"
    by (elim disjE) (simp_all add: qualityAt_values literal_values del: qualityAt.simps)
  then show "fl (1 / 10) < qualityAt k" "qualityAt (Suc k) < qualityAt k"
    "\<bar>(qualityAt k - qualityAt (Suc k)) - 1 / 20\<bar> \<le> 1 / 2 ^ 50" by simp_all
qed

lemma quality_floor: "qualityAt 16 = fl (1 / 10)" "qualityAt 15 - fl (1 / 20) < fl (1 / 10)"
  by (simp_all add: qualityAt_values literal_values)

lemma quality_top: "k \<le> 16 \<Longrightarrow> qualityAt k \<le> fl (9 / 10)"
proof (induction k)
  case 0
  then show ?case by simp
next
  case (Suc k)
  then have "k < 16" by simp
  from quality_steps(2) [OF this] Suc show ?case by simp
qed

lemma shrink_values:
  "Math_round (fmul 1 (fl (9 / 10))) = 1"
  "Math_round (fmul 40000 (fl (9 / 10))) = 36000"
  "Math_round (fmul 36000 (fl (9 / 10))) = 32400"
  "Math_round (fmul 32400 (fl (9 / 10))) = 29160"
  "Math_round (fmul 29160 (fl (9 / 10))) = 26244"
  "Math_round (fmul 26244 (fl (9 / 10))) = 23620"
  "Math_round (fmul 23620 (fl (9 / 10))) = 21258"
  "Math_round (fmul 21258 (fl (9 / 10))) = 19132"
  "Math_round (fmul 19132 (fl (9 / 10))) = 17219"
  "Math_round (fmul 17219 (fl (9 / 10))) = 15497"
  "Math_round (fmul 15497 (fl (9 / 10))) = 13947"
  "Math_round (fmul 13947 (fl (9 / 10))) = 12552"
  "Math_round (fmul 12552 (fl (9 / 10))) = 11297"
  "Math_round (fmul 11297 (fl (9 / 10))) = 10167"
  "Math_round (fmul 10167 (fl (9 / 10))) = 9150"
  "Math_round (fmul 9150 (fl (9 / 10))) = 8235"
  "Math_round (fmul 8235 (fl (9 / 10))) = 7412"
  "Math_round (fmul 7412 (fl (9 / 10))) = 6671"
  "Math_round (fmul 6671 (fl (9 / 10))) = 6004"
  "Math_round (fmul 6004 (fl (9 / 10))) = 5404"
  "Math_round (fmul 5404 (fl (9 / 10))) = 4864"
  "Math_round (fmul 4864 (fl (9 / 10))) = 4378"
  "Math_round (fmul 4378 (fl (9 / 10))) = 3940"
  "Math_round (fmul 3940 (fl (9 / 10))) = 3546"
  "Math_round (fmul 3546 (fl (9 / 10))) = 3191"
  "Math_round (fmul 3191 (fl (9 / 10))) = 2872"
  "Math_round (fmul 2872 (fl (9 / 10))) = 2585"
  "Math_round (fmul 2585 (fl (9 / 10))) = 2327"
  "Math_round (fmul 2327 (fl (9 / 10))) = 2094"
  "Math_round (fmul 2094 (fl (9 / 10))) = 1885"
  "Math_round (fmul 1885 (fl (9 / 10))) = 1697"
  "Math_round (fmul 1697 (fl (9 / 10))) = 1527"
  "Math_round (fmul 1527 (fl (9 / 10))) = 1374"
  "Math_round (fmul 1374 (fl (9 / 10))) = 1237"
  "Math_round (fmul 1237 (fl (9 / 10))) = 1113"
  "Math_round (fmul 1113 (fl (9 / 10))) = 1002"
  "Math_round (fmul 1002 (fl (9 / 10))) = 902"
  "Math_round (fmul 902 (fl (9 / 10))) = 812"
  "Math_round (fmul 812 (fl (9 / 10))) = 731"
  "Math_round (fmul 731 (fl (9 / 10))) = 658"
  "Math_round (fmul 658 (fl (9 / 10))) = 592"
  "Math_round (fmul 592 (fl (9 / 10))) = 533"
  "Math_round (fmul 533 (fl (9 / 10))) = 480"
  "Math_round (fmul 480 (fl (9 / 10))) = 432"
  "Math_round (fmul 432 (fl (9 / 10))) = 389"
  "Math_round (fmul 389 (fl (9 / 10))) = 350"
  "Math_round (fmul 350 (fl (9 / 10))) = 315"
  "Math_round (fmul 315 (fl (9 / 10))) = 284"
  "Math_round (fmul 284 (fl (9 / 10))) = 256"
  "Math_round (fmul 256 (fl (9 / 10))) = 230"
  "Math_round (fmul 230 (fl (9 / 10))) = 207"
  "Math_round (fmul 207 (fl (9 / 10))) = 186"
  "Math_round (fmul 186 (fl (9 / 10))) = 167"
  "Math_round (fmul 167 (fl (9 / 10))) = 150"
  "Math_round (fmul 150 (fl (9 / 10))) = 135"
  "Math_round (fmul 135 (fl (9 / 10))) = 122"
  "Math_round (fmul 122 (fl (9 / 10))) = 110"
  "Math_round (fmul 110 (fl (9 / 10))) = 99"
  "Math_round (fmul 99 (fl (9 / 10))) = 89"
  "Math_round (fmul 89 (fl (9 / 10))) = 80"
  "Math_round (fmul 80 (fl (9 / 10))) = 72"
  "Math_round (fmul 72 (fl (9 / 10))) = 65"
  "Math_round (fmul 65 (fl (9 / 10))) = 59"
  "Math_round (fmul 59 (fl (9 / 10))) = 53"
  "Math_round (fmul 53 (fl (9 / 10))) = 48"
  "Math_round (fmul 48 (fl (9 / 10))) = 43"
  "Math_round (fmul 43 (fl (9 / 10))) = 39"
  "Math_round (fmul 39 (fl (9 / 10))) = 35"
  "Math_round (fmul 35 (fl (9 / 10))) = 32"
  "Math_round (fmul 32 (fl (9 / 10))) = 29"
  "Math_round (fmul 29 (fl (9 / 10))) = 26"
  "Math_round (fmul 26 (fl (9 / 10))) = 23"
  "Math_round (fmul 23 (fl (9 / 10))) = 21"
  "Math_round (fmul 21 (fl (9 / 10))) = 19"
  "Math_round (fmul 19 (fl (9 / 10))) = 17"
  "Math_round (fmul 17 (fl (9 / 10))) = 15"
  "Math_round (fmul 15 (fl (9 / 10))) = 14"
  "Math_round (fmul 14 (fl (9 / 10))) = 13"
  "Math_round (fmul 13 (fl (9 / 10))) = 12"
  "Math_round (fmul 12 (fl (9 / 10))) = 11"
  "Math_round (fmul 11 (fl (9 / 10))) = 10"
  "Math_round (fmul 10 (fl (9 / 10))) = 9"
  "Math_round (fmul 9 (fl (9 / 10))) = 8"
  "Math_round (fmul 8 (fl (9 / 10))) = 7"
  "Math_round (fmul 7 (fl (9 / 10))) = 6"
  by (simp_all add: literal_values fmul_def Math_round_def fl_eval)

section \<open>The file-size search\<close>

lemma initialRender_fields:
  "currentQuality (initialRender b im) = fl (9 / 10)"
  "currentWidth (initialRender b im) = of_nat (img_width im)"
  "currentHeight (initialRender b im) = of_nat (img_height im)"
  "iterations (initialRender b im) = 0"
  "lastValidDataUrl (initialRender b im) = []"
  "lastValidFileSizeKB (initialRender b im) = 0"
  "messages (initialRender b im) = []"
  "calls (initialRender b im) =
     [\<lparr>call_width = of_nat (img_width im), call_height = of_nat (img_height im),
       call_type = ''image/jpeg'', call_quality = Some (fl (9 / 10))\<rparr>]"
  "resizedDataUrl (initialRender b im) = callUrl b (last (calls (initialRender b im)))"
  "currentFileSizeKB (initialRender b im) = callSizeKB b (last (calls (initialRender b im)))"
  by (simp_all add: initialRender_def updateCanvasAndGetSize_def Let_def callUrl_def callSizeKB_def)

lemma adjust_fields:
  "iterations (adjust s) = iterations s"
  "calls (adjust s) = calls s"
  "messages (adjust s) = messages s"
  "lastValidDataUrl (adjust s) = lastValidDataUrl s"
  "lastValidFileSizeKB (adjust s) = lastValidFileSizeKB s"
  "adjust (s\<lparr>iterations := n\<rparr>) = (adjust s)\<lparr>iterations := n\<rparr>"
  by (simp_all add: adjust_def Let_def)

lemma loopBody_fields:
  "currentQuality (fst (loopBody b mn mx s)) = currentQuality (adjust s)"
  "currentWidth (fst (loopBody b mn mx s)) = currentWidth (adjust s)"
  "currentHeight (fst (loopBody b mn mx s)) = currentHeight (adjust s)"
  "iterations (fst (loopBody b mn mx s)) = iterations s + 1"
  "messages (fst (loopBody b mn mx s)) = messages s"
  "calls (fst (loopBody b mn mx s)) = calls s @ [nextCall s]"
  "resizedDataUrl (fst (loopBody b mn mx s)) = callUrl b (nextCall s)"
  "currentFileSizeKB (fst (loopBody b mn mx s)) = callSizeKB b (nextCall s)"
  "lastValidDataUrl (fst (loopBody b mn mx s)) =
     (if callSizeKB b (nextCall s) \<le> mx then callUrl b (nextCall s) else lastValidDataUrl s)"
  "lastValidFileSizeKB (fst (loopBody b mn mx s)) =
     (if callSizeKB b (nextCall s) \<le> mx then callSizeKB b (nextCall s) else lastValidFileSizeKB s)"
  "snd (loopBody b mn mx s) = (callSizeKB b (nextCall s) \<le> mx \<and> mn \<le> callSizeKB b (nextCall s))"
  by (simp_all add: loopBody_def updateCanvasAndGetSize_def Let_def callUrl_def callSizeKB_def
      nextCall_def adjust_fields)

lemma adjust_quality:
  "fl (1 / 10) < currentQuality s \<Longrightarrow>
     adjust s = s\<lparr>currentQuality := max (fl (1 / 10)) (fsub (currentQuality s) (fl (1 / 20)))\<rparr>"
  by (simp add: adjust_def)

lemma adjust_shrink:
  "\<not> fl (1 / 10) < currentQuality s \<Longrightarrow>
     adjust s = s\<lparr>currentWidth := max 1 (Math_round (fmul (currentWidth s) (fl (9 / 10)))),
                  currentHeight := max 1 (Math_round (fmul (currentHeight s) (fl (9 / 10))))\<rparr>"
  by (simp add: adjust_def Let_def max_def not_less)

lemma shrink_le:
  assumes "w \<in> \<int>" "1 \<le> w" "w < 2 ^ 53"
  shows "max 1 (Math_round (fmul w (fl (9 / 10)))) \<le> w"
proof -
  obtain n where n: "w = of_int n" using assms(1) by (auto elim: Ints_cases)
  have "0 \<le> n" "n < 2 ^ 53" using assms(2,3) n by simp_all
  then have fw: "fl w = w" using fl_of_int [of n] n by simp
  have c: "0 \<le> fl (9 / 10)" "fl (9 / 10) \<le> 1" by (simp_all add: literal_values)
  have "0 \<le> w * fl (9 / 10)" using assms(2) c(1) by simp
  moreover have "w * fl (9 / 10) \<le> w" using assms(2) c(2) mult_left_mono [of "fl (9 / 10)" 1 w] by simp
  ultimately have "fl (w * fl (9 / 10)) \<le> fl w" by (rule fl_mono)
  then have "fmul w (fl (9 / 10)) \<le> w" by (simp add: fmul_def fw)
  then have "Math_round (fmul w (fl (9 / 10))) \<le> Math_round w" by (rule Math_round_mono)
  then show ?thesis using assms(1,2) by (simp add: Math_round_Ints)
qed

lemma grid_step:
  assumes "searchGrid s" "fl (1 / 10) < currentQuality s"
  shows "\<exists>k::nat. k \<le> 16
      \<and> max (fl (1 / 10)) (fsub (currentQuality s) (fl (1 / 20))) = qualityAt k"
    and "max (fl (1 / 10)) (fsub (currentQuality s) (fl (1 / 20))) < currentQuality s"
    and "\<bar>(currentQuality s - max (fl (1 / 10)) (fsub (currentQuality s) (fl (1 / 20)))) - 1 / 20\<bar>
          \<le> 1 / 2 ^ 50"
proof -
  obtain k :: nat where k: "k \<le> 16" "currentQuality s = qualityAt k"
    using assms(1) by (auto simp: searchGrid_def)
  have "k \<noteq> 16" using assms(2) k(2) quality_floor(1) by auto
  then have k16: "k < 16" using k(1) by simp
  have e: "max (fl (1 / 10)) (fsub (currentQuality s) (fl (1 / 20))) = qualityAt (Suc k)"
    by (simp add: k(2))
  have "Suc k \<le> 16" using k16 by simp
  then show "\<exists>k::nat. k \<le> 16
      \<and> max (fl (1 / 10)) (fsub (currentQuality s) (fl (1 / 20))) = qualityAt k"
    using e by blast
  show "max (fl (1 / 10)) (fsub (currentQuality s) (fl (1 / 20))) < currentQuality s"
    unfolding e using quality_steps(2) [OF k16] by (simp add: k(2))
  show "\<bar>(currentQuality s - max (fl (1 / 10)) (fsub (currentQuality s) (fl (1 / 20)))) - 1 / 20\<bar>
          \<le> 1 / 2 ^ 50"
    unfolding e using quality_steps(3) [OF k16] by (simp add: k(2))
qed

lemma renderOk_nextCall:
  "1 \<le> currentWidth (adjust s) \<Longrightarrow> 1 \<le> currentHeight (adjust s)
    \<Longrightarrow> fl (1 / 10) \<le> currentQuality (adjust s) \<Longrightarrow> renderOk (nextCall s)"
  by (simp add: renderOk_def nextCall_def)

lemma searchInv_adjust:
  assumes "searchInv s"
  shows "fl (1 / 10) \<le> currentQuality (adjust s)" "1 \<le> currentWidth (adjust s)"
    "1 \<le> currentHeight (adjust s)"
  using assms
  by (cases "fl (1 / 10) < currentQuality s"; simp add: adjust_quality adjust_shrink searchInv_def)+

lemma searchInv_step:
  assumes "searchInv s" "loopCond mx s"
  shows "searchInv (fst (loopBody b mn mx s))"
proof -
  note a = searchInv_adjust [OF assms(1)]
  have "iterations s + 1 \<le> maxIterations" using assms(2) by (simp add: loopCond_def)
  then show ?thesis using a assms(1) renderOk_nextCall [OF a(2,3,1)]
    by (simp add: searchInv_def loopBody_fields)
qed

lemma searchGrid_step:
  assumes "searchGrid s"
  shows "searchGrid (fst (loopBody b mn mx s))"
proof (cases "fl (1 / 10) < currentQuality s")
  case True
  then show ?thesis using assms grid_step(1) [OF assms True]
    by (simp add: searchGrid_def loopBody_fields adjust_quality)
next
  case False
  then show ?thesis using assms
    by (simp add: searchGrid_def loopBody_fields adjust_shrink Math_round_in_Ints max_def)
qed

lemma searchInv_initial:
  assumes "0 < img_width im" "0 < img_height im"
  shows "searchInv (initialRender b im)"
  using assms
  by (simp add: searchInv_def initialRender_fields renderOk_def maxIterations_def literal_values)

lemma searchGrid_initial: "searchGrid (initialRender b im)"
proof -
  have "\<exists>k::nat. k \<le> 16 \<and> fl (9 / 10) = qualityAt k"
    by (rule exI [of _ 0]) simp
  then show ?thesis by (simp add: searchGrid_def initialRender_fields)
qed

lemma reach_inv:
  assumes "0 < img_width im" "0 < img_height im" "loopReach b mn mx (initialRender b im) s"
  shows "searchInv s \<and> searchGrid s"
  using assms(3)
proof (induction rule: loopReach.induct)
  case start
  then show ?case using assms(1,2) by (simp add: searchInv_initial searchGrid_initial)
next
  case (step s)
  then show ?case by (simp add: searchInv_step searchGrid_step)
qed

lemma whileLoop_reach:
  "loopReach b mn mx s0 s \<Longrightarrow> loopReach b mn mx s0 (whileLoop b mn mx s)"
proof (induction b mn mx s rule: whileLoop.induct)
  case (1 b mn mx s)
  show ?case
  proof (cases "loopCond mx s")
    case False
    then show ?thesis using "1.prems" by (simp add: whileLoop.simps)
  next
    case True
    obtain s' brk where lb: "loopBody b mn mx s = (s', brk)" by (cases "loopBody b mn mx s")
    have r: "loopReach b mn mx s0 s'"
      using loopReach.step [OF "1.prems" True] lb by simp
    show ?thesis
    proof (cases brk)
      case True
      then show ?thesis using r lb \<open>loopCond mx s\<close> by (simp add: whileLoop.simps)
    next
      case False
      have "loopReach b mn mx s0 (whileLoop b mn mx s')"
        using "1.IH" [OF \<open>loopCond mx s\<close> lb [symmetric] _ r] False by simp
      then show ?thesis using lb \<open>loopCond mx s\<close> False by (simp add: whileLoop.simps)
    qed
  qed
qed

lemma whileLoop_exit:
  "\<not> loopCond mx (whileLoop b mn mx s)"
proof (induction b mn mx s rule: whileLoop.induct)
  case (1 b mn mx s)
  show ?case
  proof (cases "loopCond mx s")
    case False
    then show ?thesis by (simp add: whileLoop.simps)
  next
    case True
    obtain s' brk where lb: "loopBody b mn mx s = (s', brk)" by (cases "loopBody b mn mx s")
    show ?thesis
    proof (cases brk)
      case True
      have "snd (loopBody b mn mx s)" using lb True by simp
      then have "callSizeKB b (nextCall s) \<le> mx" by (simp add: loopBody_fields)
      moreover have "currentFileSizeKB s' = callSizeKB b (nextCall s)"
        using loopBody_fields(8) [of b mn mx s] lb by simp
      ultimately have "\<not> loopCond mx s'" by (simp add: loopCond_def)
      then show ?thesis using lb \<open>loopCond mx s\<close> True by (simp add: whileLoop.simps)
    next
      case False
      have "\<not> loopCond mx (whileLoop b mn mx s')"
        using "1.IH" [OF \<open>loopCond mx s\<close> lb [symmetric]] False by simp
      then show ?thesis using lb \<open>loopCond mx s\<close> False by (simp add: whileLoop.simps)
    qed
  qed
qed

lemma isJpeg_nextCall: "isJpeg (nextCall s)"
  by (simp add: isJpeg_def nextCall_def)

lemma searchSync_initial:
  assumes "mx < currentFileSizeKB (initialRender b im)"
  shows "searchSync b mx (initialRender b im)"
proof -
  have "\<not> currentFileSizeKB (initialRender b im) \<le> mx" using assms by simp
  then show ?thesis
    unfolding searchSync_def
    by (simp add: initialRender_fields(5,7,8,9,10) isJpeg_def)
qed

lemma searchSync_step:
  assumes "searchSync b mx s" "loopCond mx s"
  shows "searchSync b mx (fst (loopBody b mn mx s))"
proof -
  have over: "mx < callSizeKB b (last (calls s))" "calls s \<noteq> []"
    using assms by (simp_all add: searchSync_def loopCond_def)
  then have "overMax b mx (last (calls s))" by (simp add: overMax_def)
  moreover have "list_all (overMax b mx) (butlast (calls s))"
    using assms(1) by (simp add: searchSync_def)
  ultimately have "list_all (overMax b mx) (butlast (calls s) @ [last (calls s)])" by simp
  then have all: "list_all (overMax b mx) (calls s)" using over(2) by simp
  have lv: "lastValidDataUrl s = []"
    using assms by (auto simp: searchSync_def loopCond_def)
  show ?thesis using assms(1) all lv
    by (simp add: searchSync_def loopBody_fields isJpeg_nextCall)
qed

lemma reach_sync:
  assumes "mx < currentFileSizeKB (initialRender b im)" "loopReach b mn mx (initialRender b im) s"
  shows "searchSync b mx s"
  using assms(2)
proof (induction rule: loopReach.induct)
  case start
  then show ?case using assms(1) by (rule searchSync_initial)
next
  case (step s)
  then show ?case by (simp add: searchSync_step)
qed

lemma loop_result:
  assumes "mx < currentFileSizeKB (initialRender b im)"
  shows "searchSync b mx (whileLoop b mn mx (initialRender b im))"
  by (rule reach_sync [OF assms whileLoop_reach [OF loopReach.start]])

lemma search_third_arm:
  assumes "validFileSizes mn mx" "mx < currentFileSizeKB (initialRender b im)"
  shows "fileSizeSearch b f im mn mx =
     (let s' = whileLoop b mn mx (initialRender b im)
      in if lastValidDataUrl s' \<noteq> []
         then s'\<lparr>resizedDataUrl := lastValidDataUrl s', currentFileSizeKB := lastValidFileSizeKB s'\<rparr>
         else s'\<lparr>messages := messages s' @ [CouldNotResize (file_name f) (currentFileSizeKB s')]\<rparr>)"
proof -
  have "mn \<le> mx" using assms(1) by (simp add: validFileSizes_def)
  then have "\<not> currentFileSizeKB (initialRender b im) \<le> mx"
    "\<not> currentFileSizeKB (initialRender b im) < mn" using assms(2) by simp_all
  then show ?thesis by (simp add: fileSizeSearch_def Let_def)
qed

lemma search_third_arm_fields:
  fixes f :: File
  assumes "validFileSizes mn mx" "mx < currentFileSizeKB (initialRender b im)"
  defines "s' \<equiv> whileLoop b mn mx (initialRender b im)"
  defines "r \<equiv> fileSizeSearch b f im mn mx"
  shows "calls r = calls s'" "iterations r = iterations s'"
    "resizedDataUrl r = resizedDataUrl s'" "currentFileSizeKB r = currentFileSizeKB s'"
    "lastValidDataUrl r = lastValidDataUrl s'"
    "lastValidFileSizeKB r = lastValidFileSizeKB s'"
    "messages r = (if lastValidDataUrl s' \<noteq> [] then []
                   else [CouldNotResize (file_name f) (currentFileSizeKB s')])"
    "currentQuality r = currentQuality s'" "currentWidth r = currentWidth s'"
    "currentHeight r = currentHeight s'"
proof -
  note sy = loop_result [OF assms(2), of mn, folded s'_def]
  have e: "r = (if lastValidDataUrl s' \<noteq> []
         then s'\<lparr>resizedDataUrl := lastValidDataUrl s', currentFileSizeKB := lastValidFileSizeKB s'\<rparr>
         else s'\<lparr>messages := messages s' @ [CouldNotResize (file_name f) (currentFileSizeKB s')]\<rparr>)"
    unfolding r_def s'_def using search_third_arm [OF assms(1,2)] by (simp add: Let_def)
  have m: "messages s' = []" using sy by (simp add: searchSync_def)
  have l: "lastValidDataUrl s' \<noteq> [] \<Longrightarrow>
      lastValidDataUrl s' = resizedDataUrl s' \<and> lastValidFileSizeKB s' = currentFileSizeKB s'"
    using sy by (auto simp: searchSync_def split: if_splits)
  show "calls r = calls s'" "iterations r = iterations s'" "lastValidDataUrl r = lastValidDataUrl s'"
    "lastValidFileSizeKB r = lastValidFileSizeKB s'"
    "currentQuality r = currentQuality s'" "currentWidth r = currentWidth s'"
    "currentHeight r = currentHeight s'"
    by (simp_all add: e)
  show "resizedDataUrl r = resizedDataUrl s'" "currentFileSizeKB r = currentFileSizeKB s'"
    using l by (auto simp: e)
  show "messages r = (if lastValidDataUrl s' \<noteq> [] then []
                   else [CouldNotResize (file_name f) (currentFileSizeKB s')])"
    using m by (simp add: e)
qed

text \<open>
  Claim C2, as the code has it. Take a valid byte envelope, an initial render over the
  maximum, a search that ends with the iteration counter at its cap, and no render of the
  run inside the envelope. Then the data URL and the size handed on are those of the last
  render. If that render is at most the maximum, it is the recorded candidate, its size is
  below the minimum, and no message is set (the data URL being non-empty, as every data
  URL is). If it is over the maximum, the message \<^verbatim>\<open>Could not perfectly resize ...\<close>
  with its size is set. The search is a total function: it returns in every case.
\<close>

theorem exhausted_outcome:
  assumes "validFileSizes minFileSize maxFileSize"
    and "maxFileSize < currentFileSizeKB (initialRender b im)"
    and "iterations (fileSizeSearch b f im minFileSize maxFileSize) = maxIterations"
    and "\<not> list_ex (inEnvelope b minFileSize maxFileSize)
            (calls (fileSizeSearch b f im minFileSize maxFileSize))"
  shows "resizedDataUrl (fileSizeSearch b f im minFileSize maxFileSize)
           = callUrl b (last (calls (fileSizeSearch b f im minFileSize maxFileSize)))
       \<and> currentFileSizeKB (fileSizeSearch b f im minFileSize maxFileSize)
           = callSizeKB b (last (calls (fileSizeSearch b f im minFileSize maxFileSize)))
       \<and> (currentFileSizeKB (fileSizeSearch b f im minFileSize maxFileSize) \<le> maxFileSize \<longrightarrow>
            lastValidDataUrl (fileSizeSearch b f im minFileSize maxFileSize)
              = resizedDataUrl (fileSizeSearch b f im minFileSize maxFileSize)
            \<and> currentFileSizeKB (fileSizeSearch b f im minFileSize maxFileSize) < minFileSize
            \<and> (resizedDataUrl (fileSizeSearch b f im minFileSize maxFileSize) \<noteq> [] \<longrightarrow>
                 messages (fileSizeSearch b f im minFileSize maxFileSize) = []))
       \<and> (maxFileSize < currentFileSizeKB (fileSizeSearch b f im minFileSize maxFileSize) \<longrightarrow>
            messages (fileSizeSearch b f im minFileSize maxFileSize)
              = [CouldNotResize (file_name f)
                   (currentFileSizeKB (fileSizeSearch b f im minFileSize maxFileSize))])"
proof -
  define s' where "s' = whileLoop b minFileSize maxFileSize (initialRender b im)"
  define r where "r = fileSizeSearch b f im minFileSize maxFileSize"
  note fl = search_third_arm_fields [OF assms(1,2), of f, folded s'_def r_def]
  note sy = loop_result [OF assms(2), of minFileSize, folded s'_def]
  have ne: "calls s' \<noteq> []" and u: "resizedDataUrl s' = callUrl b (last (calls s'))"
    and k: "currentFileSizeKB s' = callSizeKB b (last (calls s'))"
    using sy by (simp_all add: searchSync_def)
  have "last (calls s') \<in> set (calls s')" using ne by simp
  then have "\<not> inEnvelope b minFileSize maxFileSize (last (calls s'))"
    using assms(4) by (auto simp: list_ex_iff r_def [symmetric] fl(1))
  then have out: "currentFileSizeKB s' \<le> maxFileSize \<Longrightarrow> currentFileSizeKB s' < minFileSize"
    using k by (auto simp: inEnvelope_def)
  have lv1: "currentFileSizeKB s' \<le> maxFileSize \<Longrightarrow> lastValidDataUrl s' = resizedDataUrl s'"
    and lv2: "maxFileSize < currentFileSizeKB s' \<Longrightarrow> lastValidDataUrl s' = []"
    using sy by (auto simp: searchSync_def)
  show ?thesis
    unfolding r_def [symmetric] fl
    using u k out lv1 lv2 by auto
qed

text \<open>
  Claim C3. If the initial render (quality 0.9, intrinsic width and height) has a size
  inside the envelope, then the run makes exactly that one call of the encoder, the loop
  counter stays at 0, the data URL pushed is the one of that render, its size is the one
  measured, and no message is set. The source has no status field: the outcome that the
  specification calls \<open>Satisfied\<close> is the one whose size lies in the envelope, as here.
\<close>

theorem initial_within_range:
  assumes "minFileSize \<le> currentFileSizeKB (initialRender b im)"
    and "currentFileSizeKB (initialRender b im) \<le> maxFileSize"
  shows "calls (fileSizeSearch b f im minFileSize maxFileSize)
           = [\<lparr>call_width = of_nat (img_width im), call_height = of_nat (img_height im),
               call_type = ''image/jpeg'', call_quality = Some (fl (9 / 10))\<rparr>]
       \<and> iterations (fileSizeSearch b f im minFileSize maxFileSize) = 0
       \<and> resizedDataUrl (fileSizeSearch b f im minFileSize maxFileSize)
           = resizedDataUrl (initialRender b im)
       \<and> resizedDataUrl (initialRender b im)
           = toDataURL b (of_nat (img_width im)) (of_nat (img_height im)) ''image/jpeg'' (Some (fl (9 / 10)))
       \<and> currentFileSizeKB (fileSizeSearch b f im minFileSize maxFileSize)
           = currentFileSizeKB (initialRender b im)
       \<and> messages (fileSizeSearch b f im minFileSize maxFileSize) = []
       \<and> pushed (fileSizeResize b f im minFileSize maxFileSize)
           = Some \<lparr>dataUrl = resizedDataUrl (initialRender b im), name = outputFileName f\<rparr>"
  using assms
  by (simp add: fileSizeSearch_def fileSizeResize_def Let_def initialRender_fields callUrl_def)

text \<open>
  Claim C4. If the initial render is smaller than the minimum, the run makes exactly that
  one call of the encoder, the loop counter stays at 0, the width, height and quality are
  the initial ones, the data URL pushed is the one of that render, and the message
  \<^verbatim>\<open>... is already smaller than ... Keeping original.\<close> is set: the outcome that the
  specification calls \<open>AcceptedBelowMin\<close>.
\<close>

theorem initial_below_min:
  assumes "currentFileSizeKB (initialRender b im) < minFileSize"
  shows "calls (fileSizeSearch b f im minFileSize maxFileSize)
           = [\<lparr>call_width = of_nat (img_width im), call_height = of_nat (img_height im),
               call_type = ''image/jpeg'', call_quality = Some (fl (9 / 10))\<rparr>]
       \<and> iterations (fileSizeSearch b f im minFileSize maxFileSize) = 0
       \<and> resizedDataUrl (fileSizeSearch b f im minFileSize maxFileSize)
           = resizedDataUrl (initialRender b im)
       \<and> resizedDataUrl (initialRender b im)
           = toDataURL b (of_nat (img_width im)) (of_nat (img_height im)) ''image/jpeg'' (Some (fl (9 / 10)))
       \<and> currentFileSizeKB (fileSizeSearch b f im minFileSize maxFileSize)
           = currentFileSizeKB (initialRender b im)
       \<and> currentWidth (fileSizeSearch b f im minFileSize maxFileSize) = of_nat (img_width im)
       \<and> currentHeight (fileSizeSearch b f im minFileSize maxFileSize) = of_nat (img_height im)
       \<and> currentQuality (fileSizeSearch b f im minFileSize maxFileSize) = fl (9 / 10)
       \<and> messages (fileSizeSearch b f im minFileSize maxFileSize)
           = [AlreadySmaller (file_name f) minFileSize (currentFileSizeKB (initialRender b im))]
       \<and> pushed (fileSizeResize b f im minFileSize maxFileSize)
           = Some \<lparr>dataUrl = resizedDataUrl (initialRender b im), name = outputFileName f\<rparr>"
  using assms
  by (simp add: fileSizeSearch_def fileSizeResize_def Let_def initialRender_fields callUrl_def)

lemma thin_sizes: "fdiv 512000 1024 = 500" "fdiv 10240 1024 = 10" "fdiv 40960 1024 = 40"
  by (simp_all add: fl_eval)

lemma max_one_nonzero: "max 1 x \<noteq> (0::rat)"
  by (simp add: max_def)

lemma thin_initial:
  "initialRender thinBrowser stripImg
     = overState (fl (9 / 10)) 40000 1 0 [jpegCall 40000 1 (fl (9 / 10))]"
  by (simp add: initialRender_def updateCanvasAndGetSize_def Let_def thinBrowser_def stripImg_def
      overState_def jpegCall_def toDataURL_def thin_sizes)

lemma thin_cond: "it < 100 \<Longrightarrow> loopCond 60 (overState q w h it cs)"
  by (simp add: loopCond_def overState_def maxIterations_def)

lemma thin_body_quality:
  assumes "fl (1 / 10) < q" "7 \<le> w" "1 \<le> h"
  shows "loopBody thinBrowser 20 60 (overState q w h it cs) =
     (overState (max (fl (1 / 10)) (fsub q (fl (1 / 20)))) w h (it + 1)
        (cs @ [jpegCall w h (max (fl (1 / 10)) (fsub q (fl (1 / 20))))]), False)"
  using assms unfolding loopBody_def
  by (simp add: adjust_def updateCanvasAndGetSize_def Let_def thinBrowser_def overState_def
      jpegCall_def toDataURL_def thin_sizes del: One_nat_def)

lemma thin_adjust:
  assumes "\<not> fl (1 / 10) < q"
  shows "adjust (overState q w h it cs) =
     overState q (max 1 (Math_round (fmul w (fl (9 / 10)))))
       (max 1 (Math_round (fmul h (fl (9 / 10))))) it cs"
proof -
  have "\<not> fl (1 / 10) < currentQuality (overState q w h it cs)"
    using assms by (simp add: overState_def)
  from adjust_shrink [OF this] show ?thesis by (simp add: overState_def)
qed

lemma thin_body_over:
  assumes "\<not> fl (1 / 10) < q" "7 \<le> max 1 (Math_round (fmul w (fl (9 / 10))))"
  shows "loopBody thinBrowser 20 60 (overState q w h it cs) =
     (overState q (max 1 (Math_round (fmul w (fl (9 / 10)))))
        (max 1 (Math_round (fmul h (fl (9 / 10))))) (it + 1)
        (cs @ [jpegCall (max 1 (Math_round (fmul w (fl (9 / 10)))))
                 (max 1 (Math_round (fmul h (fl (9 / 10))))) q]), False)"
proof -
  note a = thin_adjust [OF assms(1), of w h "it + 1" cs, unfolded overState_def]
  have n: "\<not> max 1 (Math_round (fmul w (fl (9 / 10)))) < 7"
    "max 1 (Math_round (fmul w (fl (9 / 10)))) \<noteq> 0"
    "max 1 (Math_round (fmul h (fl (9 / 10)))) \<noteq> 0"
    using assms(2) by (simp_all only: not_less max_one_nonzero not_False_eq_True)
  show ?thesis
    unfolding loopBody_def
    apply (simp only: overState_def fs_state.simps a Let_def updateCanvasAndGetSize_def
        toDataURL_def n jpegCall_def)
    using assms(2) apply (simp add: thinBrowser_def thin_sizes)
    done
qed

lemma thin_body_under:
  assumes "\<not> fl (1 / 10) < q" "max 1 (Math_round (fmul w (fl (9 / 10)))) < 7"
  shows "loopBody thinBrowser 20 60 (overState q w h it cs) =
     (\<lparr>currentQuality = q, currentWidth = max 1 (Math_round (fmul w (fl (9 / 10)))),
          currentHeight = max 1 (Math_round (fmul h (fl (9 / 10)))), currentFileSizeKB = 10,
          iterations = it + 1, lastValidDataUrl = ''data:image/jpeg;base64,s'',
          lastValidFileSizeKB = 10, resizedDataUrl = ''data:image/jpeg;base64,s'',
          messages = [],
          calls = cs @ [jpegCall (max 1 (Math_round (fmul w (fl (9 / 10)))))
                       (max 1 (Math_round (fmul h (fl (9 / 10))))) q]\<rparr>, False)"
proof -
  note a = thin_adjust [OF assms(1), of w h "it + 1" cs, unfolded overState_def]
  have n: "max 1 (Math_round (fmul w (fl (9 / 10)))) < 7"
    "max 1 (Math_round (fmul w (fl (9 / 10)))) \<noteq> 0"
    "max 1 (Math_round (fmul h (fl (9 / 10)))) \<noteq> 0"
    using assms(2) by (simp_all only: max_one_nonzero not_False_eq_True)
  show ?thesis
    unfolding loopBody_def
    apply (simp only: overState_def fs_state.simps a Let_def updateCanvasAndGetSize_def
        toDataURL_def n jpegCall_def)
    using assms(2) apply (simp add: thinBrowser_def thin_sizes)
    done
qed

lemma thin_shrink_step:
  assumes "\<not> fl (1 / 10) < q" "it < 100" "7 \<le> max 1 (Math_round (fmul w (fl (9 / 10))))"
  shows "whileLoop thinBrowser 20 60 (overState q w h it cs) =
         whileLoop thinBrowser 20 60
           (overState q (max 1 (Math_round (fmul w (fl (9 / 10)))))
              (max 1 (Math_round (fmul h (fl (9 / 10))))) (it + 1)
              (cs @ [jpegCall (max 1 (Math_round (fmul w (fl (9 / 10)))))
                       (max 1 (Math_round (fmul h (fl (9 / 10))))) q]))"
  by (subst whileLoop.simps) (simp add: thin_cond [OF assms(2)] thin_body_over [OF assms(1,3)])

lemma thin_last_step:
  assumes "\<not> fl (1 / 10) < q" "it < 100" "max 1 (Math_round (fmul w (fl (9 / 10)))) < 7"
  shows "whileLoop thinBrowser 20 60 (overState q w h it cs) =
         \<lparr>currentQuality = q, currentWidth = max 1 (Math_round (fmul w (fl (9 / 10)))),
          currentHeight = max 1 (Math_round (fmul h (fl (9 / 10)))), currentFileSizeKB = 10,
          iterations = it + 1, lastValidDataUrl = ''data:image/jpeg;base64,s'',
          lastValidFileSizeKB = 10, resizedDataUrl = ''data:image/jpeg;base64,s'',
          messages = [],
          calls = cs @ [jpegCall (max 1 (Math_round (fmul w (fl (9 / 10)))))
                       (max 1 (Math_round (fmul h (fl (9 / 10))))) q]\<rparr>"
proof -
  have e: "\<And>s. currentFileSizeKB s = 10 \<Longrightarrow> whileLoop thinBrowser 20 60 s = s"
    by (subst whileLoop.simps) (simp add: loopCond_def)
  show ?thesis
    by (subst whileLoop.simps)
       (simp add: thin_cond [OF assms(2)] thin_body_under [OF assms(1,3)] e)
qed

lemma thin_quality_calls: "thinQualityCalls (Suc k) = thinQualityCalls k @ [jpegCall 40000 1 (qualityAt k)]"
  by (simp add: thinQualityCalls_def)

lemma thin_quality_body:
  assumes "k < 16"
  shows "loopBody thinBrowser 20 60 (overState (qualityAt k) 40000 1 k (thinQualityCalls (Suc k)))
       = (overState (qualityAt (Suc k)) 40000 1 (Suc k) (thinQualityCalls (Suc (Suc k))), False)"
proof -
  have q: "fl (1 / 10) < qualityAt k" by (rule quality_steps(1) [OF assms])
  have "loopBody thinBrowser 20 60 (overState (qualityAt k) 40000 1 k (thinQualityCalls (Suc k)))
       = (overState (max (fl (1 / 10)) (fsub (qualityAt k) (fl (1 / 20)))) 40000 1 (k + 1)
           (thinQualityCalls (Suc k)
              @ [jpegCall 40000 1 (max (fl (1 / 10)) (fsub (qualityAt k) (fl (1 / 20))))]), False)"
    by (rule thin_body_quality [OF q]) simp_all
  also have "\<dots> = (overState (qualityAt (Suc k)) 40000 1 (Suc k)
      (thinQualityCalls (Suc (Suc k))), False)"
    by (simp add: thin_quality_calls [of "Suc k"])
  finally show ?thesis .
qed

lemma thin_quality_phase:
  "k \<le> 16 \<Longrightarrow> whileLoop thinBrowser 20 60 (initialRender thinBrowser stripImg)
     = whileLoop thinBrowser 20 60 (overState (qualityAt k) 40000 1 k (thinQualityCalls (Suc k)))"
proof (induction k)
  case 0
  show ?case by (simp add: thin_initial thinQualityCalls_def)
next
  case (Suc k)
  then have k: "k < 16" by simp
  have c: "loopCond 60 (overState (qualityAt k) 40000 1 k (thinQualityCalls (Suc k)))"
    using k by (intro thin_cond) simp
  have "whileLoop thinBrowser 20 60 (overState (qualityAt k) 40000 1 k (thinQualityCalls (Suc k)))
      = whileLoop thinBrowser 20 60
          (overState (qualityAt (Suc k)) 40000 1 (Suc k) (thinQualityCalls (Suc (Suc k))))"
    by (subst whileLoop.simps) (simp only: c thin_quality_body [OF k] if_True split if_False)
  with Suc show ?case by simp
qed

lemma thin_reach_quality:
  "k \<le> 16 \<Longrightarrow> loopReach thinBrowser 20 60 (initialRender thinBrowser stripImg)
      (overState (qualityAt k) 40000 1 k (thinQualityCalls (Suc k)))"
proof (induction k)
  case 0
  have "initialRender thinBrowser stripImg
      = overState (qualityAt 0) 40000 1 0 (thinQualityCalls (Suc 0))"
    by (simp add: thin_initial thinQualityCalls_def)
  then show ?case using loopReach.start [of thinBrowser 20 60 "initialRender thinBrowser stripImg"]
    by simp
next
  case (Suc k)
  then have k: "k < 16" by simp
  have r: "loopReach thinBrowser 20 60 (initialRender thinBrowser stripImg)
      (overState (qualityAt k) 40000 1 k (thinQualityCalls (Suc k)))" using Suc by simp
  have c: "loopCond 60 (overState (qualityAt k) 40000 1 k (thinQualityCalls (Suc k)))"
    using k by (intro thin_cond) simp
  from loopReach.step [OF r c] show ?case by (simp only: thin_quality_body [OF k] fst_conv)
qed

lemma thin_shrink_phase:
  "\<exists>cs. whileLoop thinBrowser 20 60 (overState (fl (1 / 10)) 40000 1 16 cs0) =
         \<lparr>currentQuality = fl (1 / 10), currentWidth = 6, currentHeight = 1,
          currentFileSizeKB = 10, iterations = 100,
          lastValidDataUrl = ''data:image/jpeg;base64,s'', lastValidFileSizeKB = 10,
          resizedDataUrl = ''data:image/jpeg;base64,s'', messages = [], calls = cs\<rparr>"
  by (simp add: thin_shrink_step thin_last_step shrink_values)

lemma thin_loop:
  "\<exists>cs. whileLoop thinBrowser 20 60 (initialRender thinBrowser stripImg) =
         \<lparr>currentQuality = fl (1 / 10), currentWidth = 6, currentHeight = 1,
          currentFileSizeKB = 10, iterations = 100,
          lastValidDataUrl = ''data:image/jpeg;base64,s'', lastValidFileSizeKB = 10,
          resizedDataUrl = ''data:image/jpeg;base64,s'', messages = [], calls = cs\<rparr>"
  using thin_shrink_phase [of "thinQualityCalls 17"] thin_quality_phase [of 16]
  by (simp add: quality_floor(1))

lemma step_le:
  assumes "searchInv s" "searchGrid s" "currentWidth s < 2 ^ 53" "currentHeight s < 2 ^ 53"
  shows "currentQuality (adjust s) \<le> currentQuality s"
    "currentWidth (adjust s) \<le> currentWidth s"
    "currentHeight (adjust s) \<le> currentHeight s"
proof -
  have i: "currentWidth s \<in> \<int>" "currentHeight s \<in> \<int>" "1 \<le> currentWidth s" "1 \<le> currentHeight s"
    using assms by (simp_all add: searchInv_def searchGrid_def)
  show "currentQuality (adjust s) \<le> currentQuality s"
  proof (cases "fl (1 / 10) < currentQuality s")
    case True
    from grid_step(2) [OF assms(2) True] True show ?thesis by (simp add: adjust_quality)
  next
    case False
    then show ?thesis by (simp add: adjust_shrink)
  qed
  show "currentWidth (adjust s) \<le> currentWidth s"
    using shrink_le [OF i(1,3) assms(3)]
    by (cases "fl (1 / 10) < currentQuality s") (simp_all add: adjust_quality adjust_shrink)
  show "currentHeight (adjust s) \<le> currentHeight s"
    using shrink_le [OF i(2,4) assms(4)]
    by (cases "fl (1 / 10) < currentQuality s") (simp_all add: adjust_quality adjust_shrink)
qed

lemma of_nat_less_2_53: "n < 2 ^ 53 \<Longrightarrow> (of_nat n :: rat) < 2 ^ 53"
  by (metis of_nat_less_iff of_nat_numeral of_nat_power)

lemma reach_below:
  assumes "0 < img_width im" "0 < img_height im" "img_width im < 2 ^ 53" "img_height im < 2 ^ 53"
    and "loopReach b mn mx (initialRender b im) s"
  shows "currentWidth s \<le> of_nat (img_width im) \<and> currentHeight s \<le> of_nat (img_height im)"
  using assms(5)
proof (induction rule: loopReach.induct)
  case start
  then show ?case by (simp add: initialRender_fields)
next
  case (step s)
  have inv: "searchInv s" "searchGrid s" using reach_inv [OF assms(1,2) step.hyps(1)] by simp_all
  have "currentWidth s < 2 ^ 53" "currentHeight s < 2 ^ 53"
    using step.IH of_nat_less_2_53 [OF assms(3)] of_nat_less_2_53 [OF assms(4)] by linarith+
  from step_le(2,3) [OF inv this] show ?case using step.IH by (simp add: loopBody_fields)
qed

lemma searchInv_cong:
  "iterations r = iterations s \<Longrightarrow> currentQuality r = currentQuality s
   \<Longrightarrow> currentWidth r = currentWidth s \<Longrightarrow> currentHeight r = currentHeight s
   \<Longrightarrow> calls r = calls s \<Longrightarrow> searchInv r = searchInv s"
  by (simp add: searchInv_def)

lemma search_from_reach:
  "\<exists>s. loopReach b mn mx (initialRender b im) s
       \<and> iterations (fileSizeSearch b f im mn mx) = iterations s
       \<and> currentQuality (fileSizeSearch b f im mn mx) = currentQuality s
       \<and> currentWidth (fileSizeSearch b f im mn mx) = currentWidth s
       \<and> currentHeight (fileSizeSearch b f im mn mx) = currentHeight s
       \<and> calls (fileSizeSearch b f im mn mx) = calls s"
proof (cases "(mn \<le> currentFileSizeKB (initialRender b im) \<and> currentFileSizeKB (initialRender b im) \<le> mx)
     \<or> currentFileSizeKB (initialRender b im) < mn")
  case True
  have "loopReach b mn mx (initialRender b im) (initialRender b im)" by (rule loopReach.start)
  then show ?thesis using True
    by (intro exI [of _ "initialRender b im"]) (auto simp: fileSizeSearch_def Let_def)
next
  case False
  have "loopReach b mn mx (initialRender b im) (whileLoop b mn mx (initialRender b im))"
    by (rule whileLoop_reach [OF loopReach.start])
  then show ?thesis using False
    by (intro exI [of _ "whileLoop b mn mx (initialRender b im)"])
       (auto simp: fileSizeSearch_def Let_def)
qed

text \<open>
  Claim C5. For an image of positive size, in every state at the head of the loop or in
  which the loop is left, and in the state the search returns: the iteration counter is
  at most 100, the quality is at least \<^verbatim>\<open>0.1\<close> (the binary64 value of the literal, and
  so at least one tenth), the working width and height are at least 1, and every render
  made so far was on a canvas of at least 1 by 1 at a quality of at least \<^verbatim>\<open>0.1\<close>.
  (Between the multiplication by 0.9 and the floor at 1 inside the body, the
  variables hold smaller values; no render sees them.)
\<close>

theorem search_bounds:
  assumes "0 < img_width im" "0 < img_height im"
  shows "maxIterations = 100
       \<and> (loopReach b minFileSize maxFileSize (initialRender b im) s \<longrightarrow>
            iterations s \<le> maxIterations \<and> fl (1 / 10) \<le> currentQuality s
            \<and> 1 / 10 \<le> currentQuality s
            \<and> 1 \<le> currentWidth s \<and> 1 \<le> currentHeight s \<and> list_all renderOk (calls s))
       \<and> searchInv (fileSizeSearch b f im minFileSize maxFileSize)"
proof -
  obtain t where t: "loopReach b minFileSize maxFileSize (initialRender b im) t"
    "iterations (fileSizeSearch b f im minFileSize maxFileSize) = iterations t"
    "currentQuality (fileSizeSearch b f im minFileSize maxFileSize) = currentQuality t"
    "currentWidth (fileSizeSearch b f im minFileSize maxFileSize) = currentWidth t"
    "currentHeight (fileSizeSearch b f im minFileSize maxFileSize) = currentHeight t"
    "calls (fileSizeSearch b f im minFileSize maxFileSize) = calls t"
    using search_from_reach [of b minFileSize maxFileSize im f] by blast
  have "searchInv t" using reach_inv [OF assms t(1)] by simp
  then have "searchInv (fileSizeSearch b f im minFileSize maxFileSize)"
    using searchInv_cong [OF t(2-6)] by simp
  moreover have "loopReach b minFileSize maxFileSize (initialRender b im) s \<Longrightarrow> searchInv s"
    using reach_inv [OF assms] by simp
  moreover have "(1 / 10 :: rat) \<le> fl (1 / 10)" by (simp add: literal_values)
  ultimately show ?thesis by (auto simp: searchInv_def maxIterations_def)
qed

text \<open>
  Claim C6. For an image of positive size (its width and height below \<open>2 ^ 53\<close>, as every
  intrinsic size is), take any state at the head of the loop that passes the loop test. If
  its quality is above \<^verbatim>\<open>0.1\<close>, the body sets the quality to the larger of \<^verbatim>\<open>0.1\<close> and
  the binary64 difference of the quality and \<^verbatim>\<open>0.05\<close>; the new quality is strictly lower,
  the decrease is 0.05 to within \<open>1 / 2 ^ 50\<close>, and width and height are left alone.
  Otherwise the quality is exactly \<^verbatim>\<open>0.1\<close> and stays there, and width and height become
  the rounded binary64 product of their value and \<^verbatim>\<open>0.9\<close>, floored at 1. In both cases no
  one of the three increases, and none exceeds its initial value.
\<close>

theorem adjustment_phases:
  assumes "0 < img_width im" "0 < img_height im" "img_width im < 2 ^ 53" "img_height im < 2 ^ 53"
    and "loopReach b minFileSize maxFileSize (initialRender b im) s"
    and "loopCond maxFileSize s"
  shows "(fl (1 / 10) < currentQuality s \<longrightarrow>
            currentQuality (fst (loopBody b minFileSize maxFileSize s))
              = max (fl (1 / 10)) (fsub (currentQuality s) (fl (1 / 20)))
          \<and> currentQuality (fst (loopBody b minFileSize maxFileSize s)) < currentQuality s
          \<and> \<bar>(currentQuality s - currentQuality (fst (loopBody b minFileSize maxFileSize s)))
                - 1 / 20\<bar> \<le> 1 / 2 ^ 50
          \<and> currentWidth (fst (loopBody b minFileSize maxFileSize s)) = currentWidth s
          \<and> currentHeight (fst (loopBody b minFileSize maxFileSize s)) = currentHeight s)
       \<and> (\<not> fl (1 / 10) < currentQuality s \<longrightarrow>
            currentQuality s = fl (1 / 10)
          \<and> currentQuality (fst (loopBody b minFileSize maxFileSize s)) = fl (1 / 10)
          \<and> currentWidth (fst (loopBody b minFileSize maxFileSize s))
              = max 1 (Math_round (fmul (currentWidth s) (fl (9 / 10))))
          \<and> currentHeight (fst (loopBody b minFileSize maxFileSize s))
              = max 1 (Math_round (fmul (currentHeight s) (fl (9 / 10)))))
       \<and> currentQuality (fst (loopBody b minFileSize maxFileSize s)) \<le> currentQuality s
       \<and> currentWidth (fst (loopBody b minFileSize maxFileSize s)) \<le> currentWidth s
       \<and> currentHeight (fst (loopBody b minFileSize maxFileSize s)) \<le> currentHeight s
       \<and> currentQuality s \<le> fl (9 / 10) \<and> currentWidth s \<le> of_nat (img_width im)
       \<and> currentHeight s \<le> of_nat (img_height im)"
proof -
  have inv: "searchInv s" "searchGrid s" using reach_inv [OF assms(1,2,5)] by simp_all
  note below = reach_below [OF assms(1-5)]
  have small: "currentWidth s < 2 ^ 53" "currentHeight s < 2 ^ 53"
    using below of_nat_less_2_53 [OF assms(3)] of_nat_less_2_53 [OF assms(4)] by linarith+
  note le = step_le [OF inv small]
  have q: "fl (1 / 10) \<le> currentQuality s" using inv(1) by (simp add: searchInv_def)
  have top: "currentQuality s \<le> fl (9 / 10)"
    using inv(2) quality_top by (auto simp: searchGrid_def)
  have A: "fl (1 / 10) < currentQuality s \<longrightarrow>
            currentQuality (fst (loopBody b minFileSize maxFileSize s))
              = max (fl (1 / 10)) (fsub (currentQuality s) (fl (1 / 20)))
          \<and> currentQuality (fst (loopBody b minFileSize maxFileSize s)) < currentQuality s
          \<and> \<bar>(currentQuality s - currentQuality (fst (loopBody b minFileSize maxFileSize s)))
                - 1 / 20\<bar> \<le> 1 / 2 ^ 50
          \<and> currentWidth (fst (loopBody b minFileSize maxFileSize s)) = currentWidth s
          \<and> currentHeight (fst (loopBody b minFileSize maxFileSize s)) = currentHeight s"
    using grid_step(2,3) [OF inv(2)] by (simp add: loopBody_fields adjust_quality)
  have B: "\<not> fl (1 / 10) < currentQuality s \<longrightarrow>
            currentQuality s = fl (1 / 10)
          \<and> currentQuality (fst (loopBody b minFileSize maxFileSize s)) = fl (1 / 10)
          \<and> currentWidth (fst (loopBody b minFileSize maxFileSize s))
              = max 1 (Math_round (fmul (currentWidth s) (fl (9 / 10))))
          \<and> currentHeight (fst (loopBody b minFileSize maxFileSize s))
              = max 1 (Math_round (fmul (currentHeight s) (fl (9 / 10))))"
    using q by (auto simp: loopBody_fields adjust_shrink)
  have C: "currentQuality (fst (loopBody b minFileSize maxFileSize s)) \<le> currentQuality s"
    "currentWidth (fst (loopBody b minFileSize maxFileSize s)) \<le> currentWidth s"
    "currentHeight (fst (loopBody b minFileSize maxFileSize s)) \<le> currentHeight s"
    using le by (simp_all add: loopBody_fields)
  show ?thesis using A B C below top by blast
qed

text \<open>
  The qualities of the run are the binary64 values \<^verbatim>\<open>0.9\<close>, \<^verbatim>\<open>0.85\<close>,
  \<^verbatim>\<open>0.7999999999999999\<close>, and so on down to \<^verbatim>\<open>0.1499999999999998\<close>; the sixteenth
  subtraction gives a value below \<^verbatim>\<open>0.1\<close>, and there the floor binds.
\<close>

lemma quality_floor_binds:
  "qualityAt 2 = 7205759403792793 / 9007199254740992"
  "qualityAt 15 = 1351079888211147 / 9007199254740992"
  "fsub (qualityAt 15) (fl (1 / 20)) < fl (1 / 10)"
  "qualityAt 16 = fl (1 / 10)"
  by (simp_all add: qualityAt_values literal_values fl_eval)

lemma str_split_nonempty: "str_split c xs \<noteq> []"
  by (induction xs) (auto split: list.splits)

lemma str_split_no_sep: "c \<notin> set xs \<Longrightarrow> str_split c xs = [xs]"
  by (induction xs) auto

lemma str_split_append:
  "str_split c (xs @ c # ys) = str_split c xs @ str_split c ys"
proof (induction xs)
  case Nil
  then show ?case by simp
next
  case (Cons x xs)
  then show ?case
    using str_split_nonempty [of c xs]
    by (cases "str_split c xs") auto
qed

lemma str_join_split: "str_join [c] (str_split c xs) = xs"
proof (induction xs)
  case Nil
  then show ?case by simp
next
  case (Cons x xs)
  obtain y ys where s: "str_split c xs = y # ys"
    using str_split_nonempty [of c xs] by (cases "str_split c xs") auto
  show ?case
  proof (cases "x = c")
    case True
    then show ?thesis using Cons s by simp
  next
    case False
    then show ?thesis using Cons s by (cases ys) auto
  qed
qed

text \<open>
  Claim C10. The name pushed by the file-size branch is \<open>outputFileName\<close> of the file.
  For a name \<open>base.ext\<close> whose \<open>ext\<close> has no dot it is \<open>resized_filesize_base.jpeg\<close>; for
  a name without any dot it is \<open>resized_filesize_.jpeg\<close>.
\<close>

theorem output_name:
  "(CHR ''.'' \<notin> set ext \<longrightarrow>
      outputFileName \<lparr>file_name = base @ ''.'' @ ext, file_type = t\<rparr>
        = ''resized_filesize_'' @ base @ ''.jpeg'')
   \<and> (CHR ''.'' \<notin> set nm \<longrightarrow>
      outputFileName \<lparr>file_name = nm, file_type = t\<rparr> = ''resized_filesize_.jpeg'')
   \<and> map_option name (pushed (fileSizeResize b f im minFileSize maxFileSize))
        = Some (outputFileName f)"
proof -
  have "CHR ''.'' \<notin> set ext \<Longrightarrow>
     slice_0_minus1 (str_split (CHR ''.'') (base @ CHR ''.'' # ext)) = str_split (CHR ''.'') base"
    by (simp add: slice_0_minus1_def str_split_append str_split_no_sep)
  then have 1: "CHR ''.'' \<notin> set ext \<Longrightarrow>
     str_join ''.'' (slice_0_minus1 (str_split (CHR ''.'') (base @ CHR ''.'' # ext))) = base"
    using str_join_split [of "CHR ''.''" base] by simp
  have 2: "CHR ''.'' \<notin> set nm \<Longrightarrow>
     str_join ''.'' (slice_0_minus1 (str_split (CHR ''.'') nm)) = []"
    by (simp add: slice_0_minus1_def str_split_no_sep)
  show ?thesis using 1 2 by (simp add: outputFileName_def fileSizeResize_def Let_def)
qed

theorem output_name_witness:
  "CHR ''.'' \<notin> set ''png'' \<and> CHR ''.'' \<notin> set ''README''
   \<and> outputFileName \<lparr>file_name = ''photo.v2.png'', file_type = ''image/png''\<rparr>
       = ''resized_filesize_photo.v2.jpeg''
   \<and> outputFileName \<lparr>file_name = ''README'', file_type = ''image/png''\<rparr>
       = ''resized_filesize_.jpeg''"
  using output_name [of "''png''" "''photo.v2''" "''image/png''" "''README''"]
  by simp

lemma reach_jpeg:
  assumes "list_all isJpeg (calls s0)" "loopReach b mn mx s0 s"
  shows "list_all isJpeg (calls s)"
  using assms(2)
proof (induction rule: loopReach.induct)
  case start
  then show ?case using assms(1) .
next
  case (step s)
  then show ?case by (simp add: loopBody_fields isJpeg_nextCall)
qed

lemma search_jpeg: "list_all isJpeg (calls (fileSizeSearch b f im mn mx))"
proof -
  obtain t where t: "loopReach b mn mx (initialRender b im) t"
    "calls (fileSizeSearch b f im mn mx) = calls t"
    using search_from_reach [of b mn mx im f] by blast
  have "list_all isJpeg (calls (initialRender b im))"
    by (simp add: initialRender_fields isJpeg_def)
  from reach_jpeg [OF this t(1)] show ?thesis using t(2) by simp
qed

lemma search_calls_nonempty: "calls (fileSizeSearch b f im mn mx) \<noteq> []"
proof -
  obtain t where t: "loopReach b mn mx (initialRender b im) t"
    "calls (fileSizeSearch b f im mn mx) = calls t"
    using search_from_reach [of b mn mx im f] by blast
  have "calls t \<noteq> []" using t(1)
    by (induction rule: loopReach.induct) (simp_all add: initialRender_fields loopBody_fields)
  then show ?thesis using t(2) by simp
qed

lemma search_returns_last:
  "resizedDataUrl (fileSizeSearch b f im mn mx) = callUrl b (last (calls (fileSizeSearch b f im mn mx)))"
proof (cases "(mn \<le> currentFileSizeKB (initialRender b im) \<and> currentFileSizeKB (initialRender b im) \<le> mx)
     \<or> currentFileSizeKB (initialRender b im) < mn")
  case True
  then show ?thesis
    using initialRender_fields(9) [of b im] by (auto simp: fileSizeSearch_def Let_def)
next
  case False
  then have over: "mx < currentFileSizeKB (initialRender b im)" by auto
  define s' where "s' = whileLoop b mn mx (initialRender b im)"
  note sy = loop_result [OF over, of mn, folded s'_def]
  have u: "resizedDataUrl s' = callUrl b (last (calls s'))" using sy by (simp add: searchSync_def)
  have l: "lastValidDataUrl s' \<noteq> [] \<Longrightarrow> lastValidDataUrl s' = resizedDataUrl s'"
    using sy by (auto simp: searchSync_def split: if_splits)
  show ?thesis using False u l
    by (auto simp: fileSizeSearch_def Let_def s'_def [symmetric])
qed

lemma sync_outside:
  assumes "searchSync b mx s" "\<not> (mn \<le> currentFileSizeKB s \<and> currentFileSizeKB s \<le> mx)"
  shows "\<not> list_ex (inEnvelope b mn mx) (calls s)"
proof -
  have ne: "calls s \<noteq> []" and k: "currentFileSizeKB s = callSizeKB b (last (calls s))"
    and bl: "list_all (overMax b mx) (butlast (calls s))"
    using assms(1) by (simp_all add: searchSync_def)
  have "\<not> inEnvelope b mn mx c" if "c \<in> set (calls s)" for c
  proof -
    have "calls s = butlast (calls s) @ [last (calls s)]" using ne by simp
    then have "c \<in> set (butlast (calls s)) \<or> c = last (calls s)"
      using that by (metis Un_iff empty_iff empty_set set_ConsD set_append)
    then show ?thesis
    proof
      assume "c \<in> set (butlast (calls s))"
      then have "overMax b mx c" using bl by (simp add: list_all_iff)
      then show ?thesis by (simp add: overMax_def inEnvelope_def)
    next
      assume "c = last (calls s)"
      then show ?thesis using assms(2) k by (simp add: inEnvelope_def)
    qed
  qed
  then show ?thesis by (auto simp: list_ex_iff)
qed

lemma thin_over: "60 < currentFileSizeKB (initialRender thinBrowser stripImg)"
  by (simp add: thin_initial overState_def)

lemma thin_valid: "validFileSizes 20 60"
  by (simp add: validFileSizes_def)

lemma thin_search:
  "iterations (fileSizeSearch thinBrowser stripFile stripImg 20 60) = 100"
  "currentFileSizeKB (fileSizeSearch thinBrowser stripFile stripImg 20 60) = 10"
  "resizedDataUrl (fileSizeSearch thinBrowser stripFile stripImg 20 60) = ''data:image/jpeg;base64,s''"
  "lastValidDataUrl (fileSizeSearch thinBrowser stripFile stripImg 20 60) = ''data:image/jpeg;base64,s''"
  "lastValidFileSizeKB (fileSizeSearch thinBrowser stripFile stripImg 20 60) = 10"
  "messages (fileSizeSearch thinBrowser stripFile stripImg 20 60) = []"
  "\<not> list_ex (inEnvelope thinBrowser 20 60)
       (calls (fileSizeSearch thinBrowser stripFile stripImg 20 60))"
proof -
  obtain cs where w: "whileLoop thinBrowser 20 60 (initialRender thinBrowser stripImg) =
         \<lparr>currentQuality = fl (1 / 10), currentWidth = 6, currentHeight = 1, currentFileSizeKB = 10,
          iterations = 100, lastValidDataUrl = ''data:image/jpeg;base64,s'', lastValidFileSizeKB = 10,
          resizedDataUrl = ''data:image/jpeg;base64,s'', messages = [], calls = cs\<rparr>"
    using thin_loop by blast
  note fl = search_third_arm_fields [OF thin_valid thin_over, of stripFile]
  show "iterations (fileSizeSearch thinBrowser stripFile stripImg 20 60) = 100"
    "currentFileSizeKB (fileSizeSearch thinBrowser stripFile stripImg 20 60) = 10"
    "resizedDataUrl (fileSizeSearch thinBrowser stripFile stripImg 20 60) = ''data:image/jpeg;base64,s''"
    "lastValidDataUrl (fileSizeSearch thinBrowser stripFile stripImg 20 60) = ''data:image/jpeg;base64,s''"
    "lastValidFileSizeKB (fileSizeSearch thinBrowser stripFile stripImg 20 60) = 10"
    "messages (fileSizeSearch thinBrowser stripFile stripImg 20 60) = []"
    by (simp_all add: fl w)
  have "\<not> (20 \<le> currentFileSizeKB (whileLoop thinBrowser 20 60 (initialRender thinBrowser stripImg))
     \<and> currentFileSizeKB (whileLoop thinBrowser 20 60 (initialRender thinBrowser stripImg)) \<le> 60)"
    by (simp add: w)
  from sync_outside [OF loop_result [OF thin_over] this]
  show "\<not> list_ex (inEnvelope thinBrowser 20 60)
       (calls (fileSizeSearch thinBrowser stripFile stripImg 20 60))"
    by (simp add: fl)
qed

text \<open>
  A run against claim C2 as stated: the image 40000 by 1 in \<open>thinBrowser\<close> with the
  envelope 20 KB to 60 KB. The 16 quality steps and the first 83 shrinking steps render
  500 KB; the 100th iteration brings the width to 6 and renders 10 KB. The counter is at
  its cap, no render was inside the envelope, the 10 KB render is the recorded candidate
  and is handed on, and no message is set.
\<close>

theorem exhausted_candidate_silent:
  "validFileSizes 20 60
   \<and> 60 < currentFileSizeKB (initialRender thinBrowser stripImg)
   \<and> iterations (fileSizeSearch thinBrowser stripFile stripImg 20 60) = maxIterations
   \<and> \<not> list_ex (inEnvelope thinBrowser 20 60)
         (calls (fileSizeSearch thinBrowser stripFile stripImg 20 60))
   \<and> lastValidDataUrl (fileSizeSearch thinBrowser stripFile stripImg 20 60) = ''data:image/jpeg;base64,s''
   \<and> lastValidFileSizeKB (fileSizeSearch thinBrowser stripFile stripImg 20 60) = 10
   \<and> resizedDataUrl (fileSizeSearch thinBrowser stripFile stripImg 20 60) = ''data:image/jpeg;base64,s''
   \<and> messages (fileSizeSearch thinBrowser stripFile stripImg 20 60) = []"
  using thin_valid thin_over thin_search by (simp add: maxIterations_def)

theorem exhausted_outcome_witness:
  "validFileSizes 20 60
   \<and> 60 < currentFileSizeKB (initialRender thinBrowser stripImg)
   \<and> iterations (fileSizeSearch thinBrowser stripFile stripImg 20 60) = maxIterations
   \<and> \<not> list_ex (inEnvelope thinBrowser 20 60)
         (calls (fileSizeSearch thinBrowser stripFile stripImg 20 60))
   \<and> resizedDataUrl (fileSizeSearch thinBrowser stripFile stripImg 20 60)
       = callUrl thinBrowser (last (calls (fileSizeSearch thinBrowser stripFile stripImg 20 60)))
   \<and> currentFileSizeKB (fileSizeSearch thinBrowser stripFile stripImg 20 60) < 20"
proof -
  have i: "iterations (fileSizeSearch thinBrowser stripFile stripImg 20 60) = maxIterations"
    using thin_search(1) by (simp add: maxIterations_def)
  show ?thesis
    using exhausted_outcome [OF thin_valid thin_over i thin_search(7)] thin_valid thin_over i
      thin_search(2,7)
    by simp
qed

theorem initial_within_range_witness:
  "20 \<le> currentFileSizeKB (initialRender midBrowser stripImg)
   \<and> currentFileSizeKB (initialRender midBrowser stripImg) \<le> 60
   \<and> calls (fileSizeSearch midBrowser stripFile stripImg 20 60) = [jpegCall 40000 1 (fl (9 / 10))]
   \<and> iterations (fileSizeSearch midBrowser stripFile stripImg 20 60) = 0
   \<and> resizedDataUrl (fileSizeSearch midBrowser stripFile stripImg 20 60)
       = ''data:image/jpeg;base64,m''"
  using initial_within_range [of 20 midBrowser stripImg 60 stripFile]
  by (simp add: initialRender_def updateCanvasAndGetSize_def Let_def midBrowser_def stripImg_def
      jpegCall_def toDataURL_def thin_sizes)

theorem initial_below_min_witness:
  "currentFileSizeKB (initialRender thinBrowser tinyImg) < 20
   \<and> calls (fileSizeSearch thinBrowser stripFile tinyImg 20 60) = [jpegCall 4 4 (fl (9 / 10))]
   \<and> iterations (fileSizeSearch thinBrowser stripFile tinyImg 20 60) = 0
   \<and> resizedDataUrl (fileSizeSearch thinBrowser stripFile tinyImg 20 60)
       = ''data:image/jpeg;base64,s''
   \<and> messages (fileSizeSearch thinBrowser stripFile tinyImg 20 60)
       = [AlreadySmaller ''strip.png'' 20 10]"
  using initial_below_min [of thinBrowser tinyImg 20 stripFile 60]
  by (simp add: initialRender_def updateCanvasAndGetSize_def Let_def thinBrowser_def tinyImg_def
      jpegCall_def stripFile_def toDataURL_def thin_sizes)

lemma thin_reach_16:
  "loopReach thinBrowser 20 60 (initialRender thinBrowser stripImg)
        (overState (fl (1 / 10)) 40000 1 16 (thinQualityCalls 17))"
  using thin_reach_quality [of 16] by (simp add: quality_floor(1))

theorem search_bounds_witness:
  "0 < img_width stripImg \<and> 0 < img_height stripImg
   \<and> loopReach thinBrowser 20 60 (initialRender thinBrowser stripImg)
        (overState (fl (1 / 10)) 40000 1 16 (thinQualityCalls 17))
   \<and> iterations (overState (fl (1 / 10)) 40000 1 16 (thinQualityCalls 17)) \<le> maxIterations
   \<and> list_all renderOk (thinQualityCalls 17)
   \<and> searchInv (fileSizeSearch thinBrowser stripFile stripImg 20 60)"
proof -
  have w: "0 < img_width stripImg" "0 < img_height stripImg" by (simp_all add: stripImg_def)
  show ?thesis
    using search_bounds [OF w, of thinBrowser 20 60
        "overState (fl (1 / 10)) 40000 1 16 (thinQualityCalls 17)" stripFile] thin_reach_16 w
    by (simp add: overState_def)
qed

theorem adjustment_phases_witness:
  "0 < img_width stripImg \<and> 0 < img_height stripImg
   \<and> img_width stripImg < 2 ^ 53 \<and> img_height stripImg < 2 ^ 53
   \<and> loopReach thinBrowser 20 60 (initialRender thinBrowser stripImg)
        (initialRender thinBrowser stripImg)
   \<and> loopCond 60 (initialRender thinBrowser stripImg)
   \<and> currentQuality (fst (loopBody thinBrowser 20 60 (initialRender thinBrowser stripImg)))
       = 7656119366529843 / 9007199254740992
   \<and> loopReach thinBrowser 20 60 (initialRender thinBrowser stripImg)
        (overState (fl (1 / 10)) 40000 1 16 (thinQualityCalls 17))
   \<and> loopCond 60 (overState (fl (1 / 10)) 40000 1 16 (thinQualityCalls 17))
   \<and> currentWidth (fst (loopBody thinBrowser 20 60
         (overState (fl (1 / 10)) 40000 1 16 (thinQualityCalls 17)))) = 36000"
proof -
  have w: "0 < img_width stripImg" "0 < img_height stripImg"
    "img_width stripImg < 2 ^ 53" "img_height stripImg < 2 ^ 53"
    by (simp_all add: stripImg_def)
  have r0: "loopReach thinBrowser 20 60 (initialRender thinBrowser stripImg)
        (initialRender thinBrowser stripImg)" by (rule loopReach.start)
  have c0: "loopCond 60 (initialRender thinBrowser stripImg)"
    unfolding thin_initial by (rule thin_cond) simp
  note r = thin_reach_16
  have c: "loopCond 60 (overState (fl (1 / 10)) 40000 1 16 (thinQualityCalls 17))"
    by (rule thin_cond) simp
  have q0: "currentQuality (initialRender thinBrowser stripImg) = fl (9 / 10)"
    by (simp add: initialRender_fields)
  have lt: "fl (1 / 10) < fl (9 / 10)" by (simp add: literal_values)
  have v: "max (fl (1 / 10)) (fsub (fl (9 / 10)) (fl (1 / 20)))
      = 7656119366529843 / 9007199254740992"
    using qualityAt_values(2) by simp
  have q: "currentQuality (overState (fl (1 / 10)) 40000 1 16 (thinQualityCalls 17)) = fl (1 / 10)"
    "currentWidth (overState (fl (1 / 10)) 40000 1 16 (thinQualityCalls 17)) = 40000"
    by (simp_all add: overState_def)
  have a0: "currentQuality (fst (loopBody thinBrowser 20 60 (initialRender thinBrowser stripImg)))
       = 7656119366529843 / 9007199254740992"
    using adjustment_phases [OF w r0 c0] lt by (simp only: q0 v)
  have a1: "currentWidth (fst (loopBody thinBrowser 20 60
         (overState (fl (1 / 10)) 40000 1 16 (thinQualityCalls 17)))) = 36000"
    using adjustment_phases [OF w r c] by (simp add: q shrink_values)
  show ?thesis using w r0 c0 r c a0 a1 by simp
qed

section \<open>Output formats\<close>

lemma reach_length:
  "loopReach b mn mx (initialRender b im) s \<Longrightarrow> length (calls s) = Suc (iterations s)"
  by (induction rule: loopReach.induct) (simp_all add: initialRender_fields loopBody_fields)

lemma jpegOut_call:
  assumes "isJpeg c" "renderOk c"
  shows "jpegOut b c"
proof -
  have "call_width c \<noteq> 0" "call_height c \<noteq> 0" using assms(2) by (auto simp: renderOk_def)
  then show ?thesis using assms(1)
    by (simp add: jpegOut_def callUrl_def toDataURL_def encodedAs_def startsWith_def isJpeg_def)
qed

text \<open>
  The formats on every input. Every encoder call of the dimension branch asks
  for \<^verbatim>\<open>image/png\<close>, and the data URL pushed is a PNG whenever both rounded dimensions are at
  least 1. For an image of positive size, the file-size branch makes one encoder call for
  the initial render and one in each iteration, each asks for \<^verbatim>\<open>image/jpeg\<close>, each returns
  a JPEG data URL, and the data URL pushed is a JPEG.
\<close>

lemma format_by_mode:
  fixes f :: File
  assumes "startsWith (file_type f) ''image/''"
  shows "list_all isPng
           (encode_calls (processFile b dimensions minSize maxSize minFileSize maxFileSize f im))"
    and "1 \<le> fst (resizeDims minSize maxSize (of_nat (img_width im), of_nat (img_height im)))
         \<Longrightarrow> 1 \<le> snd (resizeDims minSize maxSize (of_nat (img_width im), of_nat (img_height im)))
         \<Longrightarrow> \<exists>u. pushed (processFile b dimensions minSize maxSize minFileSize maxFileSize f im)
                   = Some \<lparr>dataUrl = u, name = ''resized_dim_'' @ file_name f\<rparr>
                \<and> encodedAs ''image/png'' u"
    and "list_all isJpeg
           (encode_calls (processFile b fileSize minSize maxSize minFileSize maxFileSize f im))"
    and "length (encode_calls (processFile b fileSize minSize maxSize minFileSize maxFileSize f im))
           = Suc (iterations (fileSizeSearch b f im minFileSize maxFileSize))"
    and "0 < img_width im \<Longrightarrow> 0 < img_height im
         \<Longrightarrow> list_all (jpegOut b)
               (encode_calls (processFile b fileSize minSize maxSize minFileSize maxFileSize f im))"
    and "0 < img_width im \<Longrightarrow> 0 < img_height im
         \<Longrightarrow> \<exists>u. pushed (processFile b fileSize minSize maxSize minFileSize maxFileSize f im)
                   = Some \<lparr>dataUrl = u, name = outputFileName f\<rparr>
                \<and> encodedAs ''image/jpeg'' u"
proof -
  let ?r = "fileSizeSearch b f im minFileSize maxFileSize"
  have pf: "processFile b fileSize minSize maxSize minFileSize maxFileSize f im
      = fileSizeResize b f im minFileSize maxFileSize"
    "processFile b dimensions minSize maxSize minFileSize maxFileSize f im
      = dimensionResize b f im minSize maxSize"
    using assms by (simp_all add: processFile_def)
  show "list_all isPng
           (encode_calls (processFile b dimensions minSize maxSize minFileSize maxFileSize f im))"
    by (simp add: pf dimensionResize_def isPng_def split: prod.splits)
  show "\<exists>u. pushed (processFile b dimensions minSize maxSize minFileSize maxFileSize f im)
                   = Some \<lparr>dataUrl = u, name = ''resized_dim_'' @ file_name f\<rparr>
                \<and> encodedAs ''image/png'' u"
    if "1 \<le> fst (resizeDims minSize maxSize (of_nat (img_width im), of_nat (img_height im)))"
      "1 \<le> snd (resizeDims minSize maxSize (of_nat (img_width im), of_nat (img_height im)))"
  proof -
    obtain a c where d: "resizeDims minSize maxSize (of_nat (img_width im), of_nat (img_height im))
        = (a, c)" by (cases "resizeDims minSize maxSize (of_nat (img_width im), of_nat (img_height im))")
    have "a \<noteq> 0" "c \<noteq> 0" using that d by auto
    then show ?thesis
      by (simp add: pf dimensionResize_def d toDataURL_def encodedAs_def startsWith_def)
  qed
  show j: "list_all isJpeg
           (encode_calls (processFile b fileSize minSize maxSize minFileSize maxFileSize f im))"
    using search_jpeg [of b f im minFileSize maxFileSize] by (simp add: pf fileSizeResize_def Let_def)
  obtain t where t: "loopReach b minFileSize maxFileSize (initialRender b im) t"
    "iterations ?r = iterations t" "calls ?r = calls t"
    using search_from_reach [of b minFileSize maxFileSize im f] by blast
  show "length (encode_calls (processFile b fileSize minSize maxSize minFileSize maxFileSize f im))
           = Suc (iterations ?r)"
    using reach_length [OF t(1)] t(2,3) by (simp add: pf fileSizeResize_def Let_def)
  have all: "list_all (jpegOut b) (calls ?r)" if "0 < img_width im" "0 < img_height im"
  proof -
    have "searchInv t" using reach_inv [OF that t(1)] by simp
    then have "list_all renderOk (calls ?r)" using t(3) by (simp add: searchInv_def)
    moreover have "list_all isJpeg (calls ?r)" by (rule search_jpeg)
    ultimately show ?thesis by (auto simp: list_all_iff intro: jpegOut_call)
  qed
  show "list_all (jpegOut b)
               (encode_calls (processFile b fileSize minSize maxSize minFileSize maxFileSize f im))"
    if "0 < img_width im" "0 < img_height im"
    using all [OF that] by (simp add: pf fileSizeResize_def Let_def)
  show "\<exists>u. pushed (processFile b fileSize minSize maxSize minFileSize maxFileSize f im)
                   = Some \<lparr>dataUrl = u, name = outputFileName f\<rparr>
                \<and> encodedAs ''image/jpeg'' u"
    if "0 < img_width im" "0 < img_height im"
  proof -
    have "last (calls ?r) \<in> set (calls ?r)"
      using search_calls_nonempty [of b f im minFileSize maxFileSize] by simp
    then have "jpegOut b (last (calls ?r))" using all [OF that] by (simp add: list_all_iff)
    then have "encodedAs ''image/jpeg'' (resizedDataUrl ?r)"
      by (simp add: search_returns_last jpegOut_def)
    then show ?thesis by (simp add: pf fileSizeResize_def Let_def)
  qed
qed

text \<open>
  The run of the file-size branch on the image 40000 by 1 in \<open>thinBrowser\<close> makes 101
  encoder calls, the initial one and one in each of its 100 iterations, and each returns a
  JPEG data URL.
\<close>

lemma thin_renders:
  "length (encode_calls (processFile thinBrowser fileSize 100 800 20 60 stripFile stripImg)) = 101"
  "list_all (jpegOut thinBrowser)
     (encode_calls (processFile thinBrowser fileSize 100 800 20 60 stripFile stripImg))"
proof -
  have s: "startsWith (file_type stripFile) ''image/''" by (simp add: startsWith_def stripFile_def)
  have w: "0 < img_width stripImg" "0 < img_height stripImg" by (simp_all add: stripImg_def)
  show "length (encode_calls (processFile thinBrowser fileSize 100 800 20 60 stripFile stripImg))
      = 101"
    using format_by_mode(4) [OF s, of thinBrowser 100 800 20 60 stripImg] thin_search(1) by simp
  show "list_all (jpegOut thinBrowser)
     (encode_calls (processFile thinBrowser fileSize 100 800 20 60 stripFile stripImg))"
    by (rule format_by_mode(5) [OF s w])
qed

text \<open>
  Claim C9. The dimension branch pushes whatever \<^verbatim>\<open>canvas.toDataURL("image/png")\<close> returns,
  also for a canvas with a side of 0, which the missing floor at 1 lets through. For the
  image 1024 by 2 in the envelope 128 to 2048 the canvas is 128 by 0, the browser returns
  \<^verbatim>\<open>data:,\<close>, and that string is pushed under the name \<^verbatim>\<open>resized_dim_strip.png\<close>:
  this output of the dimension mode is not a PNG. On canvases of at least 1 by 1 the
  formats are those of the claim (\<open>format_by_mode\<close>).
\<close>

theorem zero_canvas_not_png:
  "validDimensions 128 2048 \<and> startsWith (file_type stripFile) ''image/''
   \<and> pushed (processFile b dimensions 128 2048 20 60 stripFile \<lparr>img_width = 1024, img_height = 2\<rparr>)
       = Some \<lparr>dataUrl = ''data:,'', name = ''resized_dim_strip.png''\<rparr>
   \<and> \<not> encodedAs ''image/png'' ''data:,''"
  by (simp add: validDimensions_def processFile_def dimensionResize_def resizeDims_def
      clampDims_def minPass_def maxPass_def Math_round_def fl_eval toDataURL_def encodedAs_def
      startsWith_def stripFile_def)

end
